theory Spec2Isabelle
  imports Complex_Main
begin

section \<open>Helpers (utils/Helpers.js) and JavaScript array operations\<close>

text \<open>A position \<open>{row, col}\<close> is a pair of integers; the string key \<open>`${row},${col}`\<close>
  used by the sets and maps of the source is injective on integer pairs, so the pair itself
  serves as the key.\<close>

type_synonym pos = "int \<times> int"

definition posEquals :: "pos \<Rightarrow> pos \<Rightarrow> bool" where
  "posEquals pos1 pos2 = (fst pos1 = fst pos2 \<and> snd pos1 = snd pos2)"

definition areAdjacent :: "pos \<Rightarrow> pos \<Rightarrow> bool" where
  "areAdjacent pos1 pos2 =
     (let rowDiff = \<bar>fst pos1 - fst pos2\<bar>;
          colDiff = \<bar>snd pos1 - snd pos2\<bar>
      in (rowDiff = 1 \<and> colDiff = 0) \<or> (rowDiff = 0 \<and> colDiff = 1))"

text \<open>\<open>Array.prototype.findIndex\<close>: the first index whose element satisfies the
  predicate, or \<open>-1\<close>.\<close>

fun findIndex :: "('a \<Rightarrow> bool) \<Rightarrow> 'a list \<Rightarrow> int" where
  "findIndex P [] = -1"
| "findIndex P (x # xs) =
     (if P x then 0
      else (let i = findIndex P xs in if i = -1 then -1 else i + 1))"

text \<open>The relative-index normalisation shared by \<open>slice\<close> and \<open>splice\<close>: a negative
  index counts from the end, and the result is clamped to \<open>[0, len]\<close>.\<close>

definition relIndex :: "int \<Rightarrow> int \<Rightarrow> int" where
  "relIndex len i = (if i < 0 then max (len + i) 0 else min i len)"

definition slice :: "'a list \<Rightarrow> int \<Rightarrow> int \<Rightarrow> 'a list" where
  "slice xs start end =
     (let len = int (length xs); s = relIndex len start; e = relIndex len end
      in take (nat (e - s)) (drop (nat s) xs))"

definition sliceFrom :: "'a list \<Rightarrow> int \<Rightarrow> 'a list" where
  "sliceFrom xs start = drop (nat (relIndex (int (length xs)) start)) xs"

text \<open>\<open>xs.splice(start)\<close> removes and returns \<open>sliceFrom xs start\<close>; this is what stays.\<close>

definition spliceKeep :: "'a list \<Rightarrow> int \<Rightarrow> 'a list" where
  "spliceKeep xs start = take (nat (relIndex (int (length xs)) start)) xs"

section \<open>Grid (game/Grid.js)\<close>

text \<open>A cell object. Its \<open>row\<close> and \<open>col\<close> fields repeat its index in the matrix and
  are never read, so the position is the index only.\<close>

record cell =
  occupied :: bool
  pathNumber :: "int option"
  isPoint :: bool
  pointNumber :: "int option"

text \<open>The matrix \<open>cells[row][col]\<close> is a function of the position; every read goes through
  \<open>getCell\<close>, which answers \<open>null\<close> outside \<open>0 \<le> row, col < size\<close>, so the values of the
  function outside the bounds are never observed. \<open>g_points\<close> is the \<open>Map\<close> from position
  key to point number.\<close>

record Grid =
  g_size :: int
  g_cells :: "pos \<Rightarrow> cell"
  g_points :: "pos \<rightharpoonup> int"

definition emptyCell :: cell where
  "emptyCell = \<lparr>occupied = False, pathNumber = None, isPoint = False, pointNumber = None\<rparr>"

definition createGrid :: "int \<Rightarrow> (pos \<Rightarrow> cell)" where
  "createGrid sz = (\<lambda>p. emptyCell)"

definition newGrid :: "int \<Rightarrow> Grid" where
  "newGrid sz = \<lparr>g_size = sz, g_cells = createGrid sz, g_points = Map.empty\<rparr>"

definition isValidPosition :: "Grid \<Rightarrow> int \<Rightarrow> int \<Rightarrow> bool" where
  "isValidPosition g row col = (row \<ge> 0 \<and> row < g_size g \<and> col \<ge> 0 \<and> col < g_size g)"

definition getCell :: "Grid \<Rightarrow> int \<Rightarrow> int \<Rightarrow> cell option" where
  "getCell g row col =
     (if \<not> isValidPosition g row col then None else Some (g_cells g (row, col)))"

definition occupyCell :: "int \<Rightarrow> int \<Rightarrow> int \<Rightarrow> Grid \<Rightarrow> Grid" where
  "occupyCell row col pn g =
     (case getCell g row col of
        None \<Rightarrow> g
      | Some c \<Rightarrow> g\<lparr>g_cells := (g_cells g)((row, col) := c\<lparr>occupied := True, pathNumber := Some pn\<rparr>)\<rparr>)"

definition releaseCell :: "int \<Rightarrow> int \<Rightarrow> Grid \<Rightarrow> Grid" where
  "releaseCell row col g =
     (case getCell g row col of
        None \<Rightarrow> g
      | Some c \<Rightarrow>
          if \<not> isPoint c
          then g\<lparr>g_cells := (g_cells g)((row, col) := c\<lparr>occupied := False, pathNumber := None\<rparr>)\<rparr>
          else g)"

definition setPoint :: "int \<Rightarrow> int \<Rightarrow> int \<Rightarrow> Grid \<Rightarrow> Grid" where
  "setPoint row col pn g =
     (case getCell g row col of
        None \<Rightarrow> g
      | Some c \<Rightarrow>
          g\<lparr>g_cells := (g_cells g)((row, col) := c\<lparr>isPoint := True, pointNumber := Some pn\<rparr>),
            g_points := (g_points g)((row, col) \<mapsto> pn)\<rparr>)"

text \<open>\<open>this.points.get(key) || null\<close>: a missing key and the falsy number \<open>0\<close> both
  give \<open>null\<close>.\<close>

definition getPointAt :: "Grid \<Rightarrow> int \<Rightarrow> int \<Rightarrow> int option" where
  "getPointAt g row col =
     (case g_points g (row, col) of
        None \<Rightarrow> None
      | Some n \<Rightarrow> if n = 0 then None else Some n)"

text \<open>Both branches of \<open>reset\<close> clear the occupancy of the cell.\<close>

definition Grid_reset :: "Grid \<Rightarrow> Grid" where
  "Grid_reset g = g\<lparr>g_cells := (\<lambda>p. (g_cells g p)\<lparr>occupied := False, pathNumber := None\<rparr>)\<rparr>"

record point =
  p_number :: int
  p_row :: int
  p_col :: int

definition initializePoints :: "point list \<Rightarrow> Grid \<Rightarrow> Grid" where
  "initializePoints ps g =
     fold (\<lambda>p. setPoint (p_row p) (p_col p) (p_number p)) ps
       (g\<lparr>g_cells := createGrid (g_size g), g_points := Map.empty\<rparr>)"

record path =
  number :: int
  cells :: "pos list"

definition rebuildFromPaths :: "path list \<Rightarrow> Grid \<Rightarrow> Grid" where
  "rebuildFromPaths ps g =
     fold (\<lambda>p. fold (\<lambda>c. occupyCell (fst c) (snd c) (number p)) (cells p)) ps (Grid_reset g)"

section \<open>GameState (game/GameState.js)\<close>

datatype GAME_STATES = IDLE | DRAWING | PAUSED | COMPLETED

record snapshot =
  s_paths :: "path list"
  s_occupiedCells :: "pos set"
  s_currentNumber :: int
  s_connectedPoints :: "int set"

text \<open>The fields of \<open>_state\<close> that the path operations read or write. Level id, theme,
  timer and hint counters are left out; the listeners notified by \<open>_notify\<close> only redraw.\<close>

record GameState =
  occupiedCells :: "pos set"
  paths :: "path list"
  currentPath :: "path option"
  points :: "point list"
  totalPoints :: nat
  connectedPoints :: "int set"
  currentNumber :: int
  gameState :: GAME_STATES
  isComplete :: bool
  history :: "snapshot list"

text \<open>\<open>maxHistory: 50\<close> is set by the constructor and never written again.\<close>

definition maxHistory :: nat where
  "maxHistory = 50"

definition newGameState :: GameState where
  "newGameState =
     \<lparr>occupiedCells = {}, paths = [], currentPath = None, points = [], totalPoints = 0,
      connectedPoints = {}, currentNumber = 1, gameState = IDLE, isComplete = False,
      history = []\<rparr>"

definition GameState_reset :: "GameState \<Rightarrow> GameState" where
  "GameState_reset s =
     s\<lparr>paths := [], occupiedCells := {}, currentPath := None, connectedPoints := {},
       currentNumber := 1, gameState := IDLE, isComplete := False, history := []\<rparr>"

text \<open>A solution segment \<open>{from, to, path}\<close> and the level data
  \<open>{size, points, obstacles, solution}\<close>; id, name, theme and difficulty of a level are
  not read by the grid, the session or the path operations.\<close>

record segment =
  seg_from :: int
  seg_to :: int
  seg_path :: "pos list"

record Level =
  l_size :: int
  l_points :: "point list"
  l_obstacles :: "pos list"
  l_solution :: "segment list"

definition GameState_loadLevel :: "Level \<Rightarrow> GameState \<Rightarrow> GameState" where
  "GameState_loadLevel levelData s =
     GameState_reset (s\<lparr>points := l_points levelData,
                        totalPoints := length (l_points levelData)\<rparr>)"

definition startPath :: "int \<Rightarrow> int \<Rightarrow> int \<Rightarrow> GameState \<Rightarrow> GameState" where
  "startPath row col pn s =
     s\<lparr>currentPath := Some \<lparr>number = pn, cells = [(row, col)]\<rparr>,
       occupiedCells := insert (row, col) (occupiedCells s),
       gameState := DRAWING\<rparr>"

definition extendPath :: "int \<Rightarrow> int \<Rightarrow> GameState \<Rightarrow> GameState" where
  "extendPath row col s =
     (case currentPath s of
        None \<Rightarrow> s
      | Some cp \<Rightarrow>
          s\<lparr>currentPath := Some (cp\<lparr>cells := cells cp @ [(row, col)]\<rparr>),
            occupiedCells := insert (row, col) (occupiedCells s)\<rparr>)"

definition truncatePath :: "int \<Rightarrow> GameState \<Rightarrow> GameState" where
  "truncatePath fromIndex s =
     (case currentPath s of
        None \<Rightarrow> s
      | Some cp \<Rightarrow>
          (let removed = sliceFrom (cells cp) (fromIndex + 1)
           in s\<lparr>currentPath := Some (cp\<lparr>cells := spliceKeep (cells cp) (fromIndex + 1)\<rparr>),
                occupiedCells := fold (\<lambda>c occ. occ - {c}) removed (occupiedCells s)\<rparr>))"

definition takeSnapshot :: "GameState \<Rightarrow> snapshot" where
  "takeSnapshot s =
     \<lparr>s_paths = paths s, s_occupiedCells = occupiedCells s,
      s_currentNumber = currentNumber s, s_connectedPoints = connectedPoints s\<rparr>"

text \<open>\<open>push\<close>, then \<open>shift\<close> (drop the element at index 0) when the length exceeds
  \<open>maxHistory\<close>.\<close>

definition saveSnapshot :: "GameState \<Rightarrow> GameState" where
  "saveSnapshot s =
     (let h = history s @ [takeSnapshot s]
      in s\<lparr>history := (if length h > maxHistory then tl h else h)\<rparr>)"

definition checkCompletion :: "GameState \<Rightarrow> GameState" where
  "checkCompletion s =
     (if card (connectedPoints s) = totalPoints s
      then s\<lparr>isComplete := True, gameState := COMPLETED\<rparr>
      else s)"

definition completePath :: "int \<Rightarrow> int \<Rightarrow> GameState \<Rightarrow> GameState" where
  "completePath endRow endCol s =
     (case currentPath s of
        None \<Rightarrow> s
      | Some cp \<Rightarrow>
          (let completedPath = cp\<lparr>cells := cells cp @ [(endRow, endCol)]\<rparr>;
               s1 = s\<lparr>currentPath := Some completedPath,
                      occupiedCells := insert (endRow, endCol) (occupiedCells s)\<rparr>;
               s2 = saveSnapshot s1;
               s3 = s2\<lparr>paths := paths s2 @ [completedPath],
                       connectedPoints :=
                         insert (number completedPath + 1)
                           (insert (number completedPath) (connectedPoints s2)),
                       currentNumber := number completedPath + 1,
                       currentPath := None,
                       gameState := IDLE\<rparr>
           in checkCompletion s3))"

definition GameState_cancelPath :: "GameState \<Rightarrow> GameState" where
  "GameState_cancelPath s =
     (case currentPath s of
        None \<Rightarrow> s
      | Some cp \<Rightarrow>
          s\<lparr>occupiedCells := fold (\<lambda>c occ. occ - {c}) (tl (cells cp)) (occupiedCells s),
            currentPath := None,
            gameState := IDLE\<rparr>)"

definition getCurrentPathEnd :: "GameState \<Rightarrow> pos option" where
  "getCurrentPathEnd s =
     (case currentPath s of
        None \<Rightarrow> None
      | Some cp \<Rightarrow> if cells cp = [] then None else Some (last (cells cp)))"

definition findInCurrentPath :: "int \<Rightarrow> int \<Rightarrow> GameState \<Rightarrow> int" where
  "findInCurrentPath row col s =
     (case currentPath s of
        None \<Rightarrow> -1
      | Some cp \<Rightarrow> findIndex (\<lambda>c. fst c = row \<and> snd c = col) (cells cp))"

definition GameState_undo :: "GameState \<Rightarrow> bool \<times> GameState" where
  "GameState_undo s =
     (if history s = [] then (False, s)
      else (let snap = last (history s)
            in (True, s\<lparr>history := butlast (history s),
                        paths := s_paths snap,
                        occupiedCells := s_occupiedCells snap,
                        currentNumber := s_currentNumber snap,
                        connectedPoints := s_connectedPoints snap,
                        currentPath := None,
                        gameState := IDLE\<rparr>)))"

definition canUndo :: "GameState \<Rightarrow> bool" where
  "canUndo s = (length (history s) > 0)"

section \<open>PathManager (game/PathManager.js)\<close>

text \<open>The path manager works on its grid and on the singleton game state together.\<close>

record World =
  grid :: Grid
  gs :: GameState

datatype reason =
  not_a_point | wrong_point | already_drawing | no_active_path | no_path_end
  | same_cell | not_adjacent | cell_occupied | invalid_cell

text \<open>The result object \<open>{success, completed?, backtracked?, reason?}\<close>; an absent flag
  is \<open>False\<close>, an absent reason is \<open>None\<close>.\<close>

record result =
  success :: bool
  completed :: bool
  backtracked :: bool
  reason :: "reason option"

definition failure :: "reason \<Rightarrow> result" where
  "failure r = \<lparr>success = False, completed = False, backtracked = False, reason = Some r\<rparr>"

definition ok :: result where
  "ok = \<lparr>success = True, completed = False, backtracked = False, reason = None\<rparr>"

definition tryStartPath :: "int \<Rightarrow> int \<Rightarrow> World \<Rightarrow> result \<times> World" where
  "tryStartPath row col w =
     (case getPointAt (grid w) row col of
        None \<Rightarrow> (failure not_a_point, w)
      | Some pt \<Rightarrow>
          if pt \<noteq> currentNumber (gs w) then (failure wrong_point, w)
          else if currentPath (gs w) \<noteq> None then (failure already_drawing, w)
          else (ok, \<lparr>grid = occupyCell row col pt (grid w),
                     gs = startPath row col pt (gs w)\<rparr>))"

definition tryExtendPath :: "int \<Rightarrow> int \<Rightarrow> World \<Rightarrow> result \<times> World" where
  "tryExtendPath row col w =
     (case currentPath (gs w) of
        None \<Rightarrow> (failure no_active_path, w)
      | Some cp \<Rightarrow>
         (case getCurrentPathEnd (gs w) of
            None \<Rightarrow> (failure no_path_end, w)
          | Some pathEnd \<Rightarrow>
              if posEquals pathEnd (row, col) then (failure same_cell, w)
              else if \<not> areAdjacent pathEnd (row, col) then (failure not_adjacent, w)
              else
                (let existingIndex = findInCurrentPath row col (gs w) in
                 if existingIndex \<noteq> -1 then
                   (let cellsToRemove = sliceFrom (cells cp) (existingIndex + 1)
                    in (ok\<lparr>backtracked := True\<rparr>,
                        \<lparr>grid = fold (\<lambda>c. releaseCell (fst c) (snd c)) cellsToRemove (grid w),
                         gs = truncatePath existingIndex (gs w)\<rparr>))
                 else
                   (case getCell (grid w) row col of
                      None \<Rightarrow> (failure invalid_cell, w)
                    | Some c \<Rightarrow>
                       (let targetNumber = currentNumber (gs w) + 1 in
                        if isPoint c \<and> pointNumber c = Some targetNumber then
                          (let gs' = completePath row col (gs w);
                               pn = (case currentPath gs' of
                                       None \<Rightarrow> targetNumber - 1
                                     | Some p \<Rightarrow> if number p = 0 then targetNumber - 1
                                                else number p)
                           in (ok\<lparr>completed := True\<rparr>,
                               \<lparr>grid = occupyCell row col pn (grid w), gs = gs'\<rparr>))
                        else if occupied c \<or> (isPoint c \<and> pointNumber c \<noteq> Some targetNumber)
                        then (failure cell_occupied, w)
                        else (ok, \<lparr>grid = occupyCell row col (number cp) (grid w),
                                   gs = extendPath row col (gs w)\<rparr>))))))"

definition cancelPath :: "World \<Rightarrow> World" where
  "cancelPath w =
     (case currentPath (gs w) of
        None \<Rightarrow> w
      | Some cp \<Rightarrow>
          \<lparr>grid = fold (\<lambda>c. releaseCell (fst c) (snd c)) (tl (cells cp)) (grid w),
           gs = GameState_cancelPath (gs w)\<rparr>)"

definition undo :: "World \<Rightarrow> bool \<times> World" where
  "undo w =
     (if \<not> canUndo (gs w) then (False, w)
      else (let (succ, gs') = GameState_undo (gs w)
            in if succ
               then (succ, \<lparr>grid = rebuildFromPaths (paths gs')
                                    (initializePoints (points gs') (Grid_reset (grid w))),
                            gs = gs'\<rparr>)
               else (succ, w\<lparr>gs := gs'\<rparr>)))"

section \<open>GameController.loadLevel\<close>

text \<open>\<open>loadLevel\<close> builds a new grid from the level's size and points, and resets the
  game state. The level's obstacle list is not passed on to the grid.\<close>

definition loadLevel :: "Level \<Rightarrow> World" where
  "loadLevel levelData =
     \<lparr>grid = initializePoints (l_points levelData) (newGrid (l_size levelData)),
      gs = GameState_loadLevel levelData newGameState\<rparr>"

text \<open>The states a session can be in: a freshly loaded level, followed by any sequence of
  \<open>tryStartPath\<close>, \<open>tryExtendPath\<close>, \<open>cancelPath\<close> and \<open>undo\<close>.\<close>

inductive reachable :: "Level \<Rightarrow> World \<Rightarrow> bool" for lvl :: Level where
  r_load: "reachable lvl (loadLevel lvl)"
| r_start: "reachable lvl w \<Longrightarrow> reachable lvl (snd (tryStartPath row col w))"
| r_extend: "reachable lvl w \<Longrightarrow> reachable lvl (snd (tryExtendPath row col w))"
| r_cancel: "reachable lvl w \<Longrightarrow> reachable lvl (cancelPath w)"
| r_undo: "reachable lvl w \<Longrightarrow> reachable lvl (snd (undo w))"

section \<open>Session invariants\<close>

text \<open>The cells of a path other than its two endpoints.\<close>

definition interior :: "path \<Rightarrow> pos list" where
  "interior p = butlast (tl (cells p))"

definition isPointCell :: "Level \<Rightarrow> pos \<Rightarrow> bool" where
  "isPointCell lvl c = (\<exists>p \<in> set (l_points lvl). (p_row p, p_col p) = c)"

definition inBounds :: "Level \<Rightarrow> pos \<Rightarrow> bool" where
  "inBounds lvl c = (0 \<le> fst c \<and> fst c < l_size lvl \<and> 0 \<le> snd c \<and> snd c < l_size lvl)"

definition staticGrid :: "Level \<Rightarrow> Grid \<Rightarrow> bool" where
  "staticGrid lvl g =
     (g_size g = l_size lvl \<and> g_points g = g_points (grid (loadLevel lvl)) \<and>
      (\<forall>c. isPoint (g_cells g c) = isPoint (g_cells (grid (loadLevel lvl)) c) \<and>
           pointNumber (g_cells g c) = pointNumber (g_cells (grid (loadLevel lvl)) c)))"

definition pathsOk :: "Level \<Rightarrow> path list \<Rightarrow> bool" where
  "pathsOk lvl ps =
     ((\<forall>p \<in> set ps. \<forall>c \<in> set (cells p). inBounds lvl c) \<and>
      (\<forall>p \<in> set ps. \<forall>c \<in> set (interior p). \<not> isPointCell lvl c) \<and>
      distinct (concat (map interior ps)))"

definition activeOk :: "Level \<Rightarrow> World \<Rightarrow> path \<Rightarrow> bool" where
  "activeOk lvl w cp =
     (cells cp \<noteq> [] \<and> distinct (cells cp) \<and>
      (\<forall>c \<in> set (cells cp). inBounds lvl c \<and> occupied (g_cells (grid w) c)) \<and>
      (\<forall>c \<in> set (tl (cells cp)).
          \<not> isPointCell lvl c \<and> (\<forall>p \<in> set (paths (gs w)). c \<notin> set (cells p))))"

definition sessionInv :: "Level \<Rightarrow> World \<Rightarrow> bool" where
  "sessionInv lvl w =
     (staticGrid lvl (grid w) \<and> points (gs w) = l_points lvl \<and>
      pathsOk lvl (paths (gs w)) \<and>
      (\<forall>s \<in> set (history (gs w)). pathsOk lvl (s_paths s)) \<and>
      (\<forall>p \<in> set (paths (gs w)). \<forall>c \<in> set (cells p). occupied (g_cells (grid w) c)) \<and>
      (\<forall>cp. currentPath (gs w) = Some cp \<longrightarrow> activeOk lvl w cp))"

section \<open>LevelGenerator (game/LevelGenerator.js)\<close>

text \<open>\<open>Math.random()\<close> is a source of numbers in \<open>[0, 1)\<close>. The source is modelled as an
  infinite sequence of exact rationals; drawing a number takes the head and leaves the
  rest. The arithmetic on a draw (\<open>Math.floor(x * n)\<close>, \<open>x < 0.3\<close>) is exact. The results
  below hold for every sequence of draws in \<open>[0, 1)\<close>.\<close>

type_synonym rand = "nat \<Rightarrow> rat"

definition random :: "rand \<Rightarrow> rat \<times> rand" where
  "random r = (r 0, (\<lambda>n. r (Suc n)))"

definition unitRange :: "rand \<Rightarrow> bool" where
  "unitRange r = (\<forall>n. 0 \<le> r n \<and> r n < 1)"

datatype error = TypeError

text \<open>\<open>[array[i], array[j]] = [array[j], array[i]]\<close> for indices inside the array.\<close>

definition swap :: "nat \<Rightarrow> nat \<Rightarrow> 'a list \<Rightarrow> 'a list" where
  "swap i j xs = (xs[i := xs ! j])[j := xs ! i]"

text \<open>\<open>_shuffle\<close>: for \<open>i\<close> from \<open>length - 1\<close> down to \<open>1\<close>, swap position \<open>i\<close> with
  position \<open>Math.floor(Math.random() * (i + 1))\<close>. A draw in \<open>[0, 1)\<close> gives an index
  between \<open>0\<close> and \<open>i\<close>.\<close>

fun shuffleLoop :: "nat \<Rightarrow> 'a list \<Rightarrow> rand \<Rightarrow> 'a list \<times> rand" where
  "shuffleLoop 0 xs r = (xs, r)"
| "shuffleLoop (Suc k) xs r =
     (let (x, r') = random r;
          j = nat \<lfloor>x * (of_nat (Suc k) + 1)\<rfloor>
      in shuffleLoop k (swap (Suc k) j xs) r')"

definition shuffle :: "'a list \<Rightarrow> rand \<Rightarrow> 'a list \<times> rand" where
  "shuffle xs r = shuffleLoop (length xs - 1) xs r"

text \<open>\<open>_generateObstacles\<close>: the loop state is the obstacle list (the set
  \<open>obstacleSet\<close> holds the same positions) and the attempt counter.\<close>

definition avoidCells :: "int \<Rightarrow> pos set" where
  "avoidCells sz = {(0, 0), (0, sz - 1), (sz - 1, 0), (sz - 1, sz - 1)}"

function obstacleLoop :: "int \<Rightarrow> int \<Rightarrow> int \<Rightarrow> pos list \<Rightarrow> rand \<Rightarrow> pos list \<times> rand" where
  "obstacleLoop sz maxObstacles attempts obstacles r =
     (if int (length obstacles) < maxObstacles \<and> attempts < maxObstacles * 10 then
        (let (x, r1) = random r;
             row = \<lfloor>x * of_int (sz - 2)\<rfloor> + 1;
             (y, r2) = random r1;
             col = \<lfloor>y * of_int (sz - 2)\<rfloor> + 1
         in if (row, col) \<notin> set obstacles \<and> (row, col) \<notin> avoidCells sz
            then obstacleLoop sz maxObstacles (attempts + 1) (obstacles @ [(row, col)]) r2
            else obstacleLoop sz maxObstacles (attempts + 1) obstacles r2)
      else (obstacles, r))"
  by pat_completeness auto
termination
  by (relation "measure (\<lambda>(sz, maxObstacles, attempts, obstacles, r).
                    nat (maxObstacles * 10 - attempts))") auto

definition generateObstacles :: "int \<Rightarrow> int \<Rightarrow> rand \<Rightarrow> pos list \<times> rand" where
  "generateObstacles sz maxObstacles r = obstacleLoop sz maxObstacles 0 [] r"

text \<open>\<open>_createGrid\<close> of the generator: \<open>-1\<close> for an obstacle, \<open>0\<close> otherwise. The matrix
  has the rows and columns \<open>0 .. size - 1\<close>; the search reads it inside these bounds only,
  except at the four corners (see \<open>findHamiltonianPath\<close>).\<close>

definition createGridLG :: "int \<Rightarrow> pos list \<Rightarrow> (pos \<Rightarrow> int)" where
  "createGridLG sz obstacles = (\<lambda>p. if p \<in> set obstacles then -1 else 0)"

definition directions :: "pos list" where
  "directions = [(-1, 0), (1, 0), (0, -1), (0, 1)]"

definition getNeighbors :: "(pos \<Rightarrow> int) \<Rightarrow> int \<Rightarrow> int \<Rightarrow> int \<Rightarrow> pos set \<Rightarrow> pos list" where
  "getNeighbors g sz row col vis =
     filter (\<lambda>n. fst n \<ge> 0 \<and> fst n < sz \<and> snd n \<ge> 0 \<and> snd n < sz \<and>
                 g n \<noteq> -1 \<and> n \<notin> vis)
       (map (\<lambda>d. (row + fst d, col + snd d)) directions)"

text \<open>The mutable objects one search shares between its recursive calls: the set
  \<open>visited\<close>, the array \<open>path\<close>, the counters of \<open>state\<close>, and the random source.
  The field \<open>expanded\<close> is not a variable of the source: it counts how often the body
  behind the iteration check runs, so that the number of steps a search performs can be
  stated. Nothing reads it.\<close>

record search =
  visited :: "pos set"
  dfsPath :: "pos list"
  iterations :: int
  maxIterations :: int
  rnd :: rand
  expanded :: nat

text \<open>The three blocks of the body of \<open>_hamiltonianDFS\<close>. \<open>visit\<close> marks the cell and
  appends it to the path (\<open>visited.add(key); path.push({row, col})\<close>). \<open>orderNeighbors\<close>
  computes the unvisited neighbours, sorts them by their own number of unvisited neighbours
  (\<open>sort\<close> with the degree comparator is a stable sort by degree) and, when there is more
  than one, shuffles them if a draw is below \<open>0.3\<close>; the second condition of
  \<open>neighbors.length > 1 && Math.random() < 0.3\<close> draws a number only when the first holds.
  \<open>unvisit\<close> is the backtracking step (\<open>visited.delete(key); path.pop()\<close>).\<close>

definition visit :: "int \<Rightarrow> int \<Rightarrow> search \<Rightarrow> search" where
  "visit row col st =
     st\<lparr>visited := insert (row, col) (visited st),
        dfsPath := dfsPath st @ [(row, col)],
        expanded := expanded st + 1\<rparr>"

definition orderNeighbors ::
    "(pos \<Rightarrow> int) \<Rightarrow> int \<Rightarrow> int \<Rightarrow> int \<Rightarrow> pos set \<Rightarrow> rand \<Rightarrow> pos list \<times> rand" where
  "orderNeighbors g sz row col vis r =
     (let neighbors = getNeighbors g sz row col vis;
          sorted = sort_key (\<lambda>n. length (getNeighbors g sz (fst n) (snd n) vis)) neighbors
      in if length sorted > 1
         then (let (x, r1) = random r
               in if x < 3 / 10 then shuffle sorted r1 else (sorted, r1))
         else (sorted, r))"

definition unvisit :: "int \<Rightarrow> int \<Rightarrow> search \<Rightarrow> search" where
  "unvisit row col st =
     st\<lparr>visited := visited st - {(row, col)}, dfsPath := butlast (dfsPath st)\<rparr>"

text \<open>\<open>_hamiltonianDFS\<close> and its loop over the ordered neighbours. The first argument
  bounds the depth of the recursion: \<open>None\<close> means that the bound was reached, never a
  result of the source.\<close>

fun hamiltonianDFS ::
    "nat \<Rightarrow> (pos \<Rightarrow> int) \<Rightarrow> int \<Rightarrow> int \<Rightarrow> int \<Rightarrow> int \<Rightarrow> search \<Rightarrow> (bool \<times> search) option"
  and dfsLoop ::
    "nat \<Rightarrow> (pos \<Rightarrow> int) \<Rightarrow> int \<Rightarrow> int \<Rightarrow> pos list \<Rightarrow> search \<Rightarrow> (bool \<times> search) option"
where
  "hamiltonianDFS 0 g sz row col target st = None"
| "hamiltonianDFS (Suc fuel) g sz row col target st =
     (let st1 = st\<lparr>iterations := iterations st + 1\<rparr> in
      if iterations st1 > maxIterations st1 then Some (False, st1)
      else
        (let st2 = visit row col st1 in
         if int (length (dfsPath st2)) = target then Some (True, st2)
         else
           (let ordered = orderNeighbors g sz row col (visited st2) (rnd st2) in
            case dfsLoop fuel g sz target (fst ordered) (st2\<lparr>rnd := snd ordered\<rparr>) of
              None \<Rightarrow> None
            | Some (True, st3) \<Rightarrow> Some (True, st3)
            | Some (False, st3) \<Rightarrow> Some (False, unvisit row col st3))))"
| "dfsLoop fuel g sz target [] st = Some (False, st)"
| "dfsLoop fuel g sz target (n # ns) st =
     (case hamiltonianDFS fuel g sz (fst n) (snd n) target st of
        None \<Rightarrow> None
      | Some (True, st') \<Rightarrow> Some (True, st')
      | Some (False, st') \<Rightarrow> dfsLoop fuel g sz target ns st')"

text \<open>The loop of \<open>_findHamiltonianPath\<close> over the shuffled corners. Each start gets a
  new \<open>visited\<close>, a new \<open>path\<close> and a new \<open>state\<close> with \<open>maxIterations: 50000\<close>
  (\<open>startState\<close>); the random source goes on.\<close>

definition startState :: "rand \<Rightarrow> search" where
  "startState r = \<lparr>visited = {}, dfsPath = [], iterations = 0, maxIterations = 50000, rnd = r,
                 expanded = 0\<rparr>"

fun startLoop ::
    "nat \<Rightarrow> (pos \<Rightarrow> int) \<Rightarrow> int \<Rightarrow> int \<Rightarrow> pos list \<Rightarrow> rand \<Rightarrow> (pos list option \<times> rand) option"
where
  "startLoop fuel g sz totalCells [] r = Some (None, r)"
| "startLoop fuel g sz totalCells (start # starts) r =
     (if g start = -1 then startLoop fuel g sz totalCells starts r
      else
        (case hamiltonianDFS fuel g sz (fst start) (snd start) totalCells (startState r) of
           None \<Rightarrow> None
         | Some (True, st) \<Rightarrow> Some (Some (dfsPath st), rnd st)
         | Some (False, st) \<Rightarrow> startLoop fuel g sz totalCells starts (rnd st)))"

text \<open>\<open>_findHamiltonianPath\<close>. For \<open>size \<le> 0\<close> the matrix has no rows, \<open>grid[start.row]\<close>
  is \<open>undefined\<close> and reading its column throws a \<open>TypeError\<close> at the first corner.\<close>

definition findHamiltonianPath ::
    "nat \<Rightarrow> (pos \<Rightarrow> int) \<Rightarrow> int \<Rightarrow> pos list \<Rightarrow> rand
       \<Rightarrow> (error + pos list option \<times> rand) option" where
  "findHamiltonianPath fuel g sz obstacles r =
     (let totalCells = sz * sz - int (length obstacles);
          (startPoints, r1) = shuffle [(0, 0), (0, sz - 1), (sz - 1, 0), (sz - 1, sz - 1)] r
      in if sz \<le> 0 then Some (Inl TypeError)
         else map_option Inr (startLoop fuel g sz totalCells startPoints r1))"

text \<open>\<open>_placePoints\<close>. Reading \<open>path[index].row\<close> throws when \<open>index\<close> is outside the
  path.\<close>

definition pointIndex :: "int \<Rightarrow> int \<Rightarrow> int \<Rightarrow> int" where
  "pointIndex pathLength numPoints i =
     (if i = 0 then 0
      else if i = numPoints - 1 then pathLength - 1
      else i * (pathLength div numPoints))"

fun placeLoop :: "pos list \<Rightarrow> int \<Rightarrow> int list \<Rightarrow> error + point list" where
  "placeLoop pth numPoints [] = Inr []"
| "placeLoop pth numPoints (i # is) =
     (let index = pointIndex (int (length pth)) numPoints i in
      if 0 \<le> index \<and> index < int (length pth) then
        (case placeLoop pth numPoints is of
           Inl e \<Rightarrow> Inl e
         | Inr ps \<Rightarrow>
             Inr (\<lparr>p_number = i + 1, p_row = fst (pth ! nat index),
                   p_col = snd (pth ! nat index)\<rparr> # ps))
      else Inl TypeError)"

definition placePoints :: "pos list \<Rightarrow> int \<Rightarrow> error + point list" where
  "placePoints pth numPoints = placeLoop pth numPoints [0..numPoints - 1]"

text \<open>\<open>_createSolution\<close>.\<close>

definition createSolution :: "pos list \<Rightarrow> point list \<Rightarrow> segment list" where
  "createSolution pth pts =
     (let pointIndices =
            map (\<lambda>pt. findIndex (\<lambda>p. fst p = p_row pt \<and> snd p = p_col pt) pth) pts
      in map (\<lambda>i. \<lparr>seg_from = int i + 1, seg_to = int i + 2,
                    seg_path = slice pth (pointIndices ! i) (pointIndices ! (i + 1) + 1)\<rparr>)
           [0..<length pts - 1])"

text \<open>\<open>_tryGenerateLevel\<close>. The theme and the level id, drawn after the solution is
  built, are not part of the modelled level.\<close>

definition tryGenerateLevel ::
    "nat \<Rightarrow> int \<Rightarrow> int \<Rightarrow> int \<Rightarrow> rand \<Rightarrow> (error + Level option \<times> rand) option" where
  "tryGenerateLevel fuel sz numPoints maxObstacles r =
     (let (obstacles, r1) = generateObstacles sz maxObstacles r;
          g = createGridLG sz obstacles
      in case findHamiltonianPath fuel g sz obstacles r1 of
           None \<Rightarrow> None
         | Some (Inl e) \<Rightarrow> Some (Inl e)
         | Some (Inr (None, r2)) \<Rightarrow> Some (Inr (None, r2))
         | Some (Inr (Some pth, r2)) \<Rightarrow>
             (case placePoints pth numPoints of
                Inl e \<Rightarrow> Some (Inl e)
              | Inr pts \<Rightarrow>
                  Some (Inr (Some \<lparr>l_size = sz, l_points = pts, l_obstacles = obstacles,
                                   l_solution = createSolution pth pts\<rparr>, r2))))"

text \<open>The loop \<open>for (attempt = 0; attempt < 50; attempt++)\<close> of \<open>generate\<close>. It ends with
  the level of the first attempt that gives one, or with \<open>None\<close> after attempt 49; the
  value of the counter at the end is returned with it.\<close>

function attemptLoop ::
    "nat \<Rightarrow> int \<Rightarrow> int \<Rightarrow> int \<Rightarrow> nat \<Rightarrow> rand \<Rightarrow> (error + nat \<times> Level option \<times> rand) option" where
  "attemptLoop fuel sz numPoints maxObstacles attempt r =
     (if attempt < 50 then
        (case tryGenerateLevel fuel sz numPoints maxObstacles r of
           None \<Rightarrow> None
         | Some (Inl e) \<Rightarrow> Some (Inl e)
         | Some (Inr (Some lvl, r')) \<Rightarrow> Some (Inr (attempt, Some lvl, r'))
         | Some (Inr (None, r')) \<Rightarrow> attemptLoop fuel sz numPoints maxObstacles (attempt + 1) r')
      else Some (Inr (attempt, None, r)))"
  by pat_completeness auto
termination
  by (relation "measure (\<lambda>(fuel, sz, numPoints, maxObstacles, attempt, r). 50 - attempt)") auto

text \<open>\<open>generate\<close>. Its first step, \<open>Math.floor(totalCells * (obstaclePercent / 100))\<close>,
  is floating-point arithmetic and is not modelled: \<open>maxObstacles\<close> is a parameter, and
  what is proved holds for every integer value of it. The rest of \<open>generate\<close> is the 50
  attempts with obstacles, then the fallback without.\<close>

definition generateWith ::
    "nat \<Rightarrow> int \<Rightarrow> int \<Rightarrow> int \<Rightarrow> rand \<Rightarrow> (error + Level option \<times> rand) option" where
  "generateWith fuel sz numPoints maxObstacles r =
     (case attemptLoop fuel sz numPoints maxObstacles 0 r of
        None \<Rightarrow> None
      | Some (Inl e) \<Rightarrow> Some (Inl e)
      | Some (Inr (attempt, Some lvl, r')) \<Rightarrow> Some (Inr (Some lvl, r'))
      | Some (Inr (attempt, None, r')) \<Rightarrow> tryGenerateLevel fuel sz numPoints 0 r')"

section \<open>Notions used to state and prove the properties of the generator\<close>

text \<open>The cells of the grid that are not obstacles, and what holds of the shared objects of
  a search between two calls: \<open>visited\<close> is the set of the cells of \<open>path\<close>, which is a
  duplicate-free walk over free cells.\<close>

definition freeCells :: "(pos \<Rightarrow> int) \<Rightarrow> int \<Rightarrow> pos set" where
  "freeCells g sz = {p. 0 \<le> fst p \<and> fst p < sz \<and> 0 \<le> snd p \<and> snd p < sz \<and> g p \<noteq> -1}"

definition searchInv :: "(pos \<Rightarrow> int) \<Rightarrow> int \<Rightarrow> search \<Rightarrow> bool" where
  "searchInv g sz st =
     (visited st = set (dfsPath st) \<and> distinct (dfsPath st) \<and>
      set (dfsPath st) \<subseteq> freeCells g sz \<and> successively areAdjacent (dfsPath st))"

text \<open>The number of calls the counter still lets pass.\<close>

definition capLeft :: "search \<Rightarrow> nat" where
  "capLeft st = nat (maxIterations st - iterations st)"

text \<open>What a call of \<open>_hamiltonianDFS\<close> establishes (\<open>dfsPost\<close>) when it is entered at a
  free, unvisited cell next to the end of the path (\<open>dfsPre\<close>). On \<open>true\<close> the path has the
  target length; on \<open>false\<close> the set and the path are as they were.\<close>

definition dfsPost :: "(pos \<Rightarrow> int) \<Rightarrow> int \<Rightarrow> int \<Rightarrow> search \<Rightarrow> bool \<Rightarrow> search \<Rightarrow> bool" where
  "dfsPost g sz target st b st' =
     (unitRange (rnd st') \<and> maxIterations st' = maxIterations st \<and>
      iterations st \<le> iterations st' \<and>
      expanded st' + capLeft st' \<le> expanded st + capLeft st \<and>
      (b \<longrightarrow> searchInv g sz st' \<and> int (length (dfsPath st')) = target \<and> dfsPath st' \<noteq> [] \<and>
            iterations st' \<le> maxIterations st') \<and>
      (\<not> b \<longrightarrow> visited st' = visited st \<and> dfsPath st' = dfsPath st))"

definition dfsPre :: "(pos \<Rightarrow> int) \<Rightarrow> int \<Rightarrow> int \<Rightarrow> int \<Rightarrow> search \<Rightarrow> bool" where
  "dfsPre g sz row col st =
     (searchInv g sz st \<and> (row, col) \<in> freeCells g sz \<and> (row, col) \<notin> visited st \<and>
      (dfsPath st \<noteq> [] \<longrightarrow> areAdjacent (last (dfsPath st)) (row, col)) \<and>
      unitRange (rnd st))"

text \<open>The positions inside a grid of the given size, and a path as a successful search
  returns it.\<close>

definition box :: "int \<Rightarrow> pos set" where
  "box sz = {p. 0 \<le> fst p \<and> fst p < sz \<and> 0 \<le> snd p \<and> snd p < sz}"

definition goodPath :: "(pos \<Rightarrow> int) \<Rightarrow> int \<Rightarrow> int \<Rightarrow> pos list \<Rightarrow> bool" where
  "goodPath g sz tc pth =
     (distinct pth \<and> set pth \<subseteq> freeCells g sz \<and> successively areAdjacent pth \<and>
      int (length pth) = tc \<and> pth \<noteq> [])"

text \<open>The random source after \<open>k\<close> attempts in a row that all returned \<open>null\<close>; \<open>None\<close> when
  one of them did not.\<close>

fun randAfterFailures :: "nat \<Rightarrow> int \<Rightarrow> int \<Rightarrow> int \<Rightarrow> nat \<Rightarrow> rand \<Rightarrow> rand option" where
  "randAfterFailures fuel sz numPoints maxObstacles 0 r = Some r"
| "randAfterFailures fuel sz numPoints maxObstacles (Suc k) r =
     (case tryGenerateLevel fuel sz numPoints maxObstacles r of
        Some (Inr (None, r')) \<Rightarrow> randAfterFailures fuel sz numPoints maxObstacles k r'
      | _ \<Rightarrow> None)"

text \<open>A level built from a path found on the grid of its obstacles.\<close>

definition builtFrom :: "int \<Rightarrow> int \<Rightarrow> pos list \<Rightarrow> Level \<Rightarrow> bool" where
  "builtFrom sz numPoints pth lvl =
     (1 \<le> sz \<and> l_size lvl = sz \<and> placePoints pth numPoints = Inr (l_points lvl) \<and>
      l_solution lvl = createSolution pth (l_points lvl) \<and>
      goodPath (createGridLG sz (l_obstacles lvl)) sz (sz * sz - int (length (l_obstacles lvl))) pth \<and>
      distinct (l_obstacles lvl) \<and> (2 \<le> sz \<longrightarrow> set (l_obstacles lvl) \<subseteq> box sz))"

text \<open>The point \<open>_placePoints\<close> pushes in round \<open>i\<close>, and the index of its cell on the
  path.\<close>

definition pointAt :: "pos list \<Rightarrow> int \<Rightarrow> int \<Rightarrow> point" where
  "pointAt pth numPoints i =
     \<lparr>p_number = i + 1,
      p_row = fst (pth ! nat (pointIndex (int (length pth)) numPoints i)),
      p_col = snd (pth ! nat (pointIndex (int (length pth)) numPoints i))\<rparr>"

definition pidx :: "pos list \<Rightarrow> int \<Rightarrow> nat \<Rightarrow> nat" where
  "pidx pth numPoints i = nat (pointIndex (int (length pth)) numPoints (int i))"

text \<open>Joining paths that each start at the last cell of the one before: the shared cell
  is taken once.\<close>

definition joinPaths :: "pos list list \<Rightarrow> pos list" where
  "joinPaths ps = (case ps of [] \<Rightarrow> [] | p # qs \<Rightarrow> p @ concat (map tl qs))"

definition joinSegments :: "segment list \<Rightarrow> pos list" where
  "joinSegments segs = joinPaths (map seg_path segs)"

text \<open>The segment from point \<open>i + 1\<close> to point \<open>i + 2\<close>.\<close>

definition segmentAt :: "pos list \<Rightarrow> int \<Rightarrow> nat \<Rightarrow> segment" where
  "segmentAt pth numPoints i =
     \<lparr>seg_from = int i + 1, seg_to = int i + 2,
      seg_path = take (pidx pth numPoints (Suc i) + 1 - pidx pth numPoints i)
                   (drop (pidx pth numPoints i) pth)\<rparr>"





section \<open>Example data\<close>

text \<open>A 3x3 level as the generator can return it for one obstacle: the obstacle is the
  centre cell, the solution runs around the ring from the corner \<open>(0,0)\<close> to \<open>(1,0)\<close>.\<close>

definition ringLevel :: Level where
  "ringLevel =
     \<lparr>l_size = 3,
      l_points = [\<lparr>p_number = 1, p_row = 0, p_col = 0\<rparr>, \<lparr>p_number = 2, p_row = 1, p_col = 0\<rparr>],
      l_obstacles = [(1, 1)],
      l_solution = [\<lparr>seg_from = 1, seg_to = 2,
                     seg_path = [(0, 0), (0, 1), (0, 2), (1, 2), (2, 2), (2, 1), (2, 0), (1, 0)]\<rparr>]\<rparr>"

definition ringStarted :: World where
  "ringStarted = snd (tryStartPath 0 0 (loadLevel ringLevel))"

definition ringCommitted :: World where
  "ringCommitted = snd (tryExtendPath 1 0 ringStarted)"

definition ringDrawn :: World where
  "ringDrawn = snd (tryExtendPath 0 2 (snd (tryExtendPath 0 1 ringStarted)))"

definition ringCrossed :: World where
  "ringCrossed = snd (tryExtendPath 1 0 (snd (tryExtendPath 1 1 (snd (tryExtendPath 0 1 ringStarted)))))"

definition triLevel :: Level where
  "triLevel =
     \<lparr>l_size = 3,
      l_points = [\<lparr>p_number = 1, p_row = 0, p_col = 0\<rparr>, \<lparr>p_number = 2, p_row = 0, p_col = 2\<rparr>,
                  \<lparr>p_number = 3, p_row = 2, p_col = 2\<rparr>],
      l_obstacles = [],
      l_solution = []\<rparr>"

definition triDone :: World where
  "triDone =
     snd (tryExtendPath 2 2 (snd (tryExtendPath 1 2 (snd (tryStartPath 0 2
       (snd (tryExtendPath 0 2 (snd (tryExtendPath 0 1 (snd (tryStartPath 0 0
          (loadLevel triLevel))))))))))))"

text \<open>A random source that always answers \<open>0\<close>, and the level the generator returns
  with it on a 2x2 grid without obstacles for two points.\<close>

definition zeroRand :: rand where "zeroRand = (\<lambda>n. 0)"

definition smallLevel :: Level where
  "smallLevel =
     \<lparr>l_size = 2,
      l_points = [\<lparr>p_number = 1, p_row = 0, p_col = 1\<rparr>, \<lparr>p_number = 2, p_row = 1, p_col = 1\<rparr>],
      l_obstacles = [],
      l_solution = [\<lparr>seg_from = 1, seg_to = 2, seg_path = [(0, 1), (0, 0), (1, 0), (1, 1)]\<rparr>]\<rparr>"

text \<open>A random source that always answers \<open>1/2\<close>. With it the corner \<open>(0,0)\<close> is tried
  first and no list of neighbours is shuffled; on a 6x6 grid without obstacles the search
  finds \<open>sixPath\<close> in 36 calls, and for four points the generator returns \<open>sixLevel\<close>.\<close>

definition halfRand :: rand where "halfRand = (\<lambda>n. 1 / 2)"

definition sixPath :: "pos list" where
  "sixPath = [(0, 0), (1, 0), (2, 0), (3, 0), (4, 0), (5, 0), (5, 1), (4, 1), (3, 1),
    (2, 1), (1, 1), (0, 1), (0, 2), (1, 2), (2, 2), (3, 2), (4, 2), (5, 2),
    (5, 3), (4, 3), (3, 3), (2, 3), (1, 3), (0, 3), (0, 4), (0, 5), (1, 5),
    (1, 4), (2, 4), (2, 5), (3, 5), (3, 4), (4, 4), (5, 4), (5, 5), (4, 5)]"

definition sixLevel :: Level where
  "sixLevel =
     \<lparr>l_size = 6,
      l_points = [\<lparr>p_number = 1, p_row = 0, p_col = 0\<rparr>, \<lparr>p_number = 2, p_row = 2, p_col = 1\<rparr>,
                  \<lparr>p_number = 3, p_row = 5, p_col = 3\<rparr>, \<lparr>p_number = 4, p_row = 4, p_col = 5\<rparr>],
      l_obstacles = [],
      l_solution =
        [\<lparr>seg_from = 1, seg_to = 2,
          seg_path = [(0, 0), (1, 0), (2, 0), (3, 0), (4, 0), (5, 0), (5, 1), (4, 1), (3, 1),
                      (2, 1)]\<rparr>,
         \<lparr>seg_from = 2, seg_to = 3,
          seg_path = [(2, 1), (1, 1), (0, 1), (0, 2), (1, 2), (2, 2), (3, 2), (4, 2), (5, 2),
                      (5, 3)]\<rparr>,
         \<lparr>seg_from = 3, seg_to = 4,
          seg_path = [(5, 3), (4, 3), (3, 3), (2, 3), (1, 3), (0, 3), (0, 4), (0, 5), (1, 5),
                      (1, 4), (2, 4), (2, 5), (3, 5), (3, 4), (4, 4), (5, 4), (5, 5),
                      (4, 5)]\<rparr>]\<rparr>"




section \<open>Facts about the array helpers\<close>

lemma findIndex_ge: "findIndex P xs \<ge> -1"
  by (induction xs) (auto simp: Let_def)

lemma findIndex_neg_iff: "findIndex P xs = -1 \<longleftrightarrow> (\<forall>x\<in>set xs. \<not> P x)"
proof (induction xs)
  case Nil
  then show ?case by simp
next
  case (Cons a xs)
  have "findIndex P xs \<ge> -1" by (rule findIndex_ge)
  then show ?case using Cons by (auto simp: Let_def)
qed

lemma findIndex_lt: "findIndex P xs < int (length xs)"
  by (induction xs) (auto simp: Let_def)

lemma findIndex_nth: "findIndex P xs \<noteq> -1 \<Longrightarrow> P (xs ! nat (findIndex P xs))"
proof (induction xs)
  case Nil
  then show ?case by simp
next
  case (Cons a xs)
  have ge: "findIndex P xs \<ge> -1" by (rule findIndex_ge)
  show ?case
  proof (cases "P a")
    case True
    then show ?thesis by simp
  next
    case False
    with Cons.prems have ne: "findIndex P xs \<noteq> -1"
      by (auto simp: Let_def split: if_splits)
    with ge have "findIndex P xs \<ge> 0" by simp
    then have "nat (findIndex P xs + 1) = Suc (nat (findIndex P xs))" by simp
    with False ne Cons.IH show ?thesis by (simp add: Let_def)
  qed
qed

section \<open>Unfolding the model on concrete inputs\<close>

lemmas model_defs =
  loadLevel_def initializePoints_def newGrid_def createGrid_def emptyCell_def setPoint_def
  getCell_def isValidPosition_def GameState_loadLevel_def GameState_reset_def newGameState_def
  tryStartPath_def getPointAt_def occupyCell_def startPath_def ok_def failure_def
  tryExtendPath_def getCurrentPathEnd_def posEquals_def areAdjacent_def findInCurrentPath_def
  completePath_def saveSnapshot_def takeSnapshot_def maxHistory_def checkCompletion_def
  undo_def canUndo_def GameState_undo_def rebuildFromPaths_def Grid_reset_def Let_def
  extendPath_def truncatePath_def sliceFrom_def spliceKeep_def relIndex_def releaseCell_def
  cancelPath_def GameState_cancelPath_def

lemmas ring_defs = ringLevel_def ringStarted_def ringCommitted_def

lemma ringStarted_reachable: "reachable ringLevel ringStarted"
  unfolding ringStarted_def by (intro reachable.intros)

lemma ringCommitted_reachable: "reachable ringLevel ringCommitted"
  unfolding ringCommitted_def by (intro reachable.intros ringStarted_reachable)

section \<open>The undo history\<close>

lemma saveSnapshot_history:
  "history (saveSnapshot s) =
     (if length (history s) < maxHistory then history s @ [takeSnapshot s]
      else tl (history s @ [takeSnapshot s]))"
  by (auto simp: saveSnapshot_def Let_def)

lemma saveSnapshot_other [simp]:
  "paths (saveSnapshot s) = paths s"
  "occupiedCells (saveSnapshot s) = occupiedCells s"
  "currentPath (saveSnapshot s) = currentPath s"
  "connectedPoints (saveSnapshot s) = connectedPoints s"
  "currentNumber (saveSnapshot s) = currentNumber s"
  "points (saveSnapshot s) = points s"
  "totalPoints (saveSnapshot s) = totalPoints s"
  by (simp_all add: saveSnapshot_def Let_def)

lemma saveSnapshot_last:
  "history (saveSnapshot s) \<noteq> [] \<and> last (history (saveSnapshot s)) = takeSnapshot s"
  by (cases "history s") (auto simp: saveSnapshot_history maxHistory_def)

lemma saveSnapshot_length:
  "length (history s) \<le> maxHistory \<Longrightarrow> length (history (saveSnapshot s)) \<le> maxHistory"
  by (auto simp: saveSnapshot_history maxHistory_def)

lemma tryExtend_completed:
  assumes "tryExtendPath row col w = (r, w')" "completed r"
  shows "\<exists>cp. currentPath (gs w) = Some cp \<and> gs w' = completePath row col (gs w)"
  using assms
  by (auto simp: tryExtendPath_def failure_def ok_def Let_def split: option.splits if_splits)

lemma completePath_history:
  "currentPath s = Some cp \<Longrightarrow>
   history (completePath row col s) =
     history (saveSnapshot (s\<lparr>currentPath := Some (cp\<lparr>cells := cells cp @ [(row, col)]\<rparr>),
                             occupiedCells := insert (row, col) (occupiedCells s)\<rparr>))"
  by (simp add: completePath_def Let_def checkCompletion_def)

lemma tryStartPath_history: "history (gs (snd (tryStartPath row col w))) = history (gs w)"
  by (simp add: tryStartPath_def startPath_def split: option.splits)

lemma tryExtendPath_history_other:
  "\<not> completed (fst (tryExtendPath row col w)) \<Longrightarrow>
   history (gs (snd (tryExtendPath row col w))) = history (gs w)"
  by (auto simp: tryExtendPath_def failure_def ok_def Let_def truncatePath_def extendPath_def
           split: option.splits if_splits)

lemma tryExtendPath_history_completed:
  "completed (fst (tryExtendPath row col w)) \<Longrightarrow>
   \<exists>cp. currentPath (gs w) = Some cp \<and>
     history (gs (snd (tryExtendPath row col w))) =
     history (saveSnapshot ((gs w)\<lparr>currentPath := Some (cp\<lparr>cells := cells cp @ [(row, col)]\<rparr>),
                                  occupiedCells := insert (row, col) (occupiedCells (gs w))\<rparr>))"
  using tryExtend_completed[of row col w "fst (tryExtendPath row col w)"
          "snd (tryExtendPath row col w)"]
  by (auto simp: completePath_history)

lemma cancelPath_history: "history (gs (cancelPath w)) = history (gs w)"
  by (simp add: cancelPath_def GameState_cancelPath_def split: option.splits)

lemma undo_history: "history (gs (snd (undo w))) = butlast (history (gs w))"
  by (auto simp: undo_def canUndo_def GameState_undo_def Let_def)

lemma loadLevel_history: "history (gs (loadLevel lvl)) = []"
  by (simp add: loadLevel_def GameState_loadLevel_def GameState_reset_def)

lemma reachable_history_bound: "reachable lvl w \<Longrightarrow> length (history (gs w)) \<le> maxHistory"
proof (induction rule: reachable.induct)
  case r_load
  then show ?case by (simp add: loadLevel_history)
next
  case (r_start w row col)
  then show ?case by (simp add: tryStartPath_history)
next
  case (r_extend w row col)
  show ?case
  proof (cases "completed (fst (tryExtendPath row col w))")
    case True
    from tryExtendPath_history_completed[OF True] obtain cp where
      h: "history (gs (snd (tryExtendPath row col w))) =
          history (saveSnapshot ((gs w)\<lparr>currentPath := Some (cp\<lparr>cells := cells cp @ [(row, col)]\<rparr>),
                                       occupiedCells := insert (row, col) (occupiedCells (gs w))\<rparr>))"
      by blast
    show ?thesis unfolding h using r_extend.IH by (intro saveSnapshot_length) simp
  next
    case False
    then show ?thesis using r_extend.IH by (simp add: tryExtendPath_history_other)
  qed
next
  case (r_cancel w)
  then show ?case by (simp add: cancelPath_history)
next
  case (r_undo w)
  then show ?case by (simp add: undo_history)
qed

text \<open>Claim C9. In every reachable session the history holds at most 50 snapshots. A
  completing \<open>tryExtendPath\<close> pushes exactly one snapshot at the top (the end of the list),
  and when the history already holds 50 it drops the bottom one (the head of the list);
  every other outcome of \<open>tryExtendPath\<close>, and \<open>tryStartPath\<close> and \<open>cancelPath\<close>, leave the
  history as it is. \<open>undo\<close> removes the top snapshot and restores the session from it.\<close>

theorem history_bounded_lifo:
  assumes "reachable lvl w"
  shows "length (history (gs w)) \<le> 50 \<and>
         history (gs (snd (tryExtendPath row col w))) =
           (if completed (fst (tryExtendPath row col w))
            then (let h = history (gs w);
                      snap = takeSnapshot
                               ((gs w)\<lparr>occupiedCells := insert (row, col) (occupiedCells (gs w))\<rparr>)
                  in if length h < 50 then h @ [snap] else tl h @ [snap])
            else history (gs w)) \<and>
         history (gs (snd (tryStartPath row col w))) = history (gs w) \<and>
         history (gs (cancelPath w)) = history (gs w) \<and>
         history (gs (snd (undo w))) = butlast (history (gs w)) \<and>
         (history (gs w) \<noteq> [] \<longrightarrow>
            fst (undo w) \<and>
            takeSnapshot (gs (snd (undo w))) = last (history (gs w)))"
proof -
  have a: "length (history (gs w)) \<le> 50"
    using reachable_history_bound[OF assms] by (simp add: maxHistory_def)
  have b: "history (gs (snd (tryExtendPath row col w))) =
           (if completed (fst (tryExtendPath row col w))
            then (let h = history (gs w);
                      snap = takeSnapshot
                               ((gs w)\<lparr>occupiedCells := insert (row, col) (occupiedCells (gs w))\<rparr>)
                  in if length h < 50 then h @ [snap] else tl h @ [snap])
            else history (gs w))"
  proof (cases "completed (fst (tryExtendPath row col w))")
    case True
    from tryExtendPath_history_completed[OF True] obtain cp where
      h: "history (gs (snd (tryExtendPath row col w))) =
          history (saveSnapshot ((gs w)\<lparr>currentPath := Some (cp\<lparr>cells := cells cp @ [(row, col)]\<rparr>),
                                       occupiedCells := insert (row, col) (occupiedCells (gs w))\<rparr>))"
      by blast
    show ?thesis using True a unfolding h
      by (cases "history (gs w)")
         (auto simp: saveSnapshot_history maxHistory_def takeSnapshot_def Let_def)
  next
    case False
    then show ?thesis by (simp add: tryExtendPath_history_other)
  qed
  have c: "history (gs w) \<noteq> [] \<longrightarrow>
            fst (undo w) \<and> takeSnapshot (gs (snd (undo w))) = last (history (gs w))"
    by (simp add: undo_def canUndo_def GameState_undo_def Let_def takeSnapshot_def)
  show ?thesis
    using a b c tryStartPath_history[of row col w] cancelPath_history[of w] undo_history[of w]
    by simp
qed

theorem history_bounded_lifo_witness:
  "reachable ringLevel ringStarted \<and>
   history (gs ringStarted) = [] \<and>
   completed (fst (tryExtendPath 1 0 ringStarted)) \<and>
   history (gs ringCommitted) =
     [takeSnapshot ((gs ringStarted)\<lparr>occupiedCells := {(1, 0), (0, 0)}\<rparr>)] \<and>
   reachable ringLevel ringCommitted \<and>
   length (history (gs ringCommitted)) \<le> 50 \<and>
   fst (undo ringCommitted) \<and>
   history (gs (snd (undo ringCommitted))) = []"
proof -
  have h0: "history (gs ringStarted) = []"
    by (simp add: ring_defs model_defs)
  have c: "completed (fst (tryExtendPath 1 0 ringStarted))"
    by (simp add: ring_defs model_defs)
  have o: "occupiedCells (gs ringStarted) = {(0, 0)}"
    by (simp add: ring_defs model_defs)
  have h1: "history (gs ringCommitted) =
     [takeSnapshot ((gs ringStarted)\<lparr>occupiedCells := {(1, 0), (0, 0)}\<rparr>)]"
    using history_bounded_lifo[OF ringStarted_reachable, of 1 0] c h0 o
    by (simp add: ringCommitted_def Let_def)
  from history_bounded_lifo[OF ringCommitted_reachable, of 0 0] h1
  have "length (history (gs ringCommitted)) \<le> 50 \<and> fst (undo ringCommitted) \<and>
        history (gs (snd (undo ringCommitted))) = []"
    by simp
  with h0 c h1 ringStarted_reachable ringCommitted_reachable show ?thesis by simp
qed

section \<open>Undo after a commit\<close>

text \<open>Claim C1, as the code has it. When \<open>tryExtendPath\<close> completes a path and \<open>undo\<close>
  follows at once, the committed paths, the connected points and the current number are
  again what they were before the completing call, and no path is active. The occupied-cell
  set of the session is restored from the snapshot, which \<open>completePath\<close> takes after it
  has added the end cell: it is the set before the call together with the end cell.\<close>

theorem undo_after_commit:
  assumes "tryExtendPath row col w = (r, w')" "completed r"
  shows "fst (undo w') \<and>
         paths (gs (snd (undo w'))) = paths (gs w) \<and>
         connectedPoints (gs (snd (undo w'))) = connectedPoints (gs w) \<and>
         currentNumber (gs (snd (undo w'))) = currentNumber (gs w) \<and>
         currentPath (gs (snd (undo w'))) = None \<and>
         occupiedCells (gs (snd (undo w'))) = insert (row, col) (occupiedCells (gs w))"
proof -
  from tryExtend_completed[OF assms] obtain cp where
    cp: "currentPath (gs w) = Some cp" and g: "gs w' = completePath row col (gs w)"
    by blast
  define s1 where
    "s1 = (gs w)\<lparr>currentPath := Some (cp\<lparr>cells := cells cp @ [(row, col)]\<rparr>),
                 occupiedCells := insert (row, col) (occupiedCells (gs w))\<rparr>"
  have h: "history (gs w') = history (saveSnapshot s1)"
    using cp by (simp add: g completePath_history s1_def)
  have ne: "history (gs w') \<noteq> []" and l: "last (history (gs w')) = takeSnapshot s1"
    using saveSnapshot_last[of s1] h by simp_all
  have u: "GameState_undo (gs w') =
             (True, (gs w')\<lparr>history := butlast (history (gs w')),
                            paths := s_paths (takeSnapshot s1),
                            occupiedCells := s_occupiedCells (takeSnapshot s1),
                            currentNumber := s_currentNumber (takeSnapshot s1),
                            connectedPoints := s_connectedPoints (takeSnapshot s1),
                            currentPath := None,
                            gameState := IDLE\<rparr>)"
    using ne l by (simp add: GameState_undo_def Let_def)
  show ?thesis using ne
    by (simp add: undo_def canUndo_def u takeSnapshot_def s1_def)
qed

theorem undo_after_commit_witness:
  "completed (fst (tryExtendPath 1 0 ringStarted)) \<and>
   fst (undo ringCommitted) \<and>
   paths (gs (snd (undo ringCommitted))) = [] \<and>
   connectedPoints (gs (snd (undo ringCommitted))) = {} \<and>
   currentNumber (gs (snd (undo ringCommitted))) = 1 \<and>
   occupiedCells (gs (snd (undo ringCommitted))) = {(1, 0), (0, 0)}"
proof -
  have c: "completed (fst (tryExtendPath 1 0 ringStarted))"
    by (simp add: ring_defs model_defs)
  have e: "tryExtendPath 1 0 ringStarted = (fst (tryExtendPath 1 0 ringStarted), ringCommitted)"
    by (simp add: ringCommitted_def)
  have s: "paths (gs ringStarted) = [] \<and> connectedPoints (gs ringStarted) = {} \<and>
           currentNumber (gs ringStarted) = 1 \<and> occupiedCells (gs ringStarted) = {(0, 0)}"
    by (simp add: ring_defs model_defs)
  from undo_after_commit[OF e c] c s show ?thesis by simp
qed

text \<open>The claim as written fails: the occupied-cell set after the undo is not the set
  just before the completing call. On the ring level the path starts at \<open>(0,0)\<close>, the call
  for \<open>(1,0)\<close> completes it, and after \<open>undo\<close> the cell \<open>(1,0)\<close> is still in the set.\<close>

theorem undo_after_commit_counterexample:
  "reachable ringLevel ringStarted \<and>
   completed (fst (tryExtendPath 1 0 ringStarted)) \<and>
   fst (undo (snd (tryExtendPath 1 0 ringStarted))) \<and>
   (1, 0) \<notin> occupiedCells (gs ringStarted) \<and>
   (1, 0) \<in> occupiedCells (gs (snd (undo (snd (tryExtendPath 1 0 ringStarted))))) \<and>
   occupiedCells (gs (snd (undo (snd (tryExtendPath 1 0 ringStarted))))) \<noteq>
     occupiedCells (gs ringStarted)"
proof -
  have "occupiedCells (gs ringStarted) = {(0, 0)}"
    by (simp add: ring_defs model_defs)
  moreover have "occupiedCells (gs (snd (undo (snd (tryExtendPath 1 0 ringStarted))))) =
                 {(1, 0), (0, 0)}"
    by (simp add: ring_defs model_defs)
  moreover have "completed (fst (tryExtendPath 1 0 ringStarted))"
    by (simp add: ring_defs model_defs)
  moreover have "fst (undo (snd (tryExtendPath 1 0 ringStarted)))"
    by (simp add: ring_defs model_defs)
  ultimately show ?thesis using ringStarted_reachable by auto
qed

section \<open>Occupying a cell\<close>

text \<open>What \<open>occupyCell\<close> does: it marks a position inside the bounds as occupied by the
  given path number, leaves all other cells alone and does nothing for a position outside
  the bounds. The grid of a loaded level does not depend on the obstacle list of the level:
  \<open>GameController.loadLevel\<close> builds it from the size and the points.\<close>

lemma occupyCell_in_bounds:
  "grid (loadLevel (lvl\<lparr>l_obstacles := obs\<rparr>)) = grid (loadLevel lvl) \<and>
   (isValidPosition g row col \<longrightarrow>
      g_cells (occupyCell row col pn g) (row, col) =
        (g_cells g (row, col))\<lparr>occupied := True, pathNumber := Some pn\<rparr>) \<and>
   (\<not> isValidPosition g row col \<longrightarrow> occupyCell row col pn g = g) \<and>
   (\<forall>p. p \<noteq> (row, col) \<longrightarrow> g_cells (occupyCell row col pn g) p = g_cells g p) \<and>
   g_size (occupyCell row col pn g) = g_size g \<and>
   g_points (occupyCell row col pn g) = g_points g"
  by (simp add: occupyCell_def getCell_def loadLevel_def)

text \<open>Claim C2 on the code. The claim asks that occupying an obstacle cell is a no-op. The
  centre cell \<open>(1,1)\<close> of the ring level is an obstacle of the level; in the grid that
  \<open>loadLevel\<close> builds it is a free cell like any other, and \<open>occupyCell 1 1 1\<close> marks it
  as occupied by path 1: the obstacles of the level are never handed to the grid.\<close>

theorem occupyCell_marks_obstacle:
  "(1, 1) \<in> set (l_obstacles ringLevel) \<and>
   \<not> occupied (g_cells (grid (loadLevel ringLevel)) (1, 1)) \<and>
   occupied (g_cells (occupyCell 1 1 1 (grid (loadLevel ringLevel))) (1, 1)) \<and>
   pathNumber (g_cells (occupyCell 1 1 1 (grid (loadLevel ringLevel))) (1, 1)) = Some 1 \<and>
   occupyCell 1 1 1 (grid (loadLevel ringLevel)) \<noteq> grid (loadLevel ringLevel)"
proof -
  have a: "(1, 1) \<in> set (l_obstacles ringLevel) \<and>
   \<not> occupied (g_cells (grid (loadLevel ringLevel)) (1, 1)) \<and>
   occupied (g_cells (occupyCell 1 1 1 (grid (loadLevel ringLevel))) (1, 1)) \<and>
   pathNumber (g_cells (occupyCell 1 1 1 (grid (loadLevel ringLevel))) (1, 1)) = Some 1"
    by (simp add: ring_defs model_defs)
  then have "occupyCell 1 1 1 (grid (loadLevel ringLevel)) \<noteq> grid (loadLevel ringLevel)"
    by auto
  with a show ?thesis by simp
qed

section \<open>Extending outside the grid\<close>

lemma tryExtendPath_failure_unchanged:
  "\<not> success (fst (tryExtendPath row col w)) \<Longrightarrow> snd (tryExtendPath row col w) = w"
  by (auto simp: tryExtendPath_def failure_def ok_def Let_def split: option.splits if_splits)

lemma tryExtendPath_reason:
  "currentPath (gs w) = Some cp \<Longrightarrow>
   (success (fst (tryExtendPath row col w)) \<and> reason (fst (tryExtendPath row col w)) = None) \<or>
   (\<not> success (fst (tryExtendPath row col w)) \<and>
    reason (fst (tryExtendPath row col w)) \<in>
      {Some no_path_end, Some same_cell, Some not_adjacent, Some invalid_cell,
       Some cell_occupied})"
  by (auto simp: tryExtendPath_def failure_def ok_def Let_def split: option.splits if_splits)

lemma tryExtendPath_invalid:
  assumes "currentPath (gs w) = Some cp" "getCurrentPathEnd (gs w) = Some pathEnd"
    "areAdjacent pathEnd (row, col)" "\<not> posEquals pathEnd (row, col)"
    "(row, col) \<notin> set (cells cp)" "\<not> isValidPosition (grid w) row col"
  shows "tryExtendPath row col w = (failure invalid_cell, w)"
proof -
  have "findInCurrentPath row col (gs w) = -1"
    using assms(1,5) by (auto simp: findInCurrentPath_def findIndex_neg_iff)
  then show ?thesis using assms
    by (simp add: tryExtendPath_def getCell_def)
qed

text \<open>Claim C10. With a path active, \<open>tryExtendPath\<close> answers every pair of integer
  coordinates with a result object: either a success without a reason, or a failure with
  one of five reasons, and a failure leaves grid and session as they were. No branch of the
  source can throw on integer coordinates, so the model has no error value. When the target
  is outside the bounds, adjacent to the end of the path, different from it and not on the
  path, the answer is the failure \<open>invalid_cell\<close> and nothing changes.\<close>

theorem tryExtendPath_total_invalid_cell:
  assumes "currentPath (gs w) = Some cp"
  shows "((success (fst (tryExtendPath row col w)) \<and>
           reason (fst (tryExtendPath row col w)) = None) \<or>
          (\<not> success (fst (tryExtendPath row col w)) \<and>
           reason (fst (tryExtendPath row col w)) \<in>
             {Some no_path_end, Some same_cell, Some not_adjacent, Some invalid_cell,
              Some cell_occupied} \<and>
           snd (tryExtendPath row col w) = w)) \<and>
         (\<forall>pathEnd. getCurrentPathEnd (gs w) = Some pathEnd \<and>
                    areAdjacent pathEnd (row, col) \<and> \<not> posEquals pathEnd (row, col) \<and>
                    (row, col) \<notin> set (cells cp) \<and> \<not> isValidPosition (grid w) row col \<longrightarrow>
            tryExtendPath row col w = (failure invalid_cell, w))"
  using tryExtendPath_reason[OF assms, of row col] tryExtendPath_failure_unchanged[of row col w]
    tryExtendPath_invalid[OF assms, of _ row col]
  by blast

theorem tryExtendPath_total_invalid_cell_witness:
  "currentPath (gs ringStarted) = Some \<lparr>number = 1, cells = [(0, 0)]\<rparr> \<and>
   getCurrentPathEnd (gs ringStarted) = Some (0, 0) \<and>
   areAdjacent (0, 0) (-1, 0) \<and> \<not> posEquals (0, 0) (-1, 0) \<and>
   \<not> isValidPosition (grid ringStarted) (-1) 0 \<and>
   tryExtendPath (-1) 0 ringStarted = (failure invalid_cell, ringStarted)"
proof -
  have cp: "currentPath (gs ringStarted) = Some \<lparr>number = 1, cells = [(0, 0)]\<rparr>"
    by (simp add: ring_defs model_defs)
  have e: "getCurrentPathEnd (gs ringStarted) = Some (0, 0)"
    by (simp add: getCurrentPathEnd_def cp)
  have a: "areAdjacent (0, 0) (-1, 0) \<and> \<not> posEquals (0, 0) (-1, 0)"
    by (simp add: areAdjacent_def posEquals_def)
  have v: "\<not> isValidPosition (grid ringStarted) (-1) 0"
    by (simp add: isValidPosition_def)
  from tryExtendPath_total_invalid_cell[OF cp, of "-1" 0] cp e a v show ?thesis by simp
qed

section \<open>The session invariant\<close>

lemma occupyCell_simps [simp]:
  "g_size (occupyCell row col pn g) = g_size g"
  "g_points (occupyCell row col pn g) = g_points g"
  "isPoint (g_cells (occupyCell row col pn g) c) = isPoint (g_cells g c)"
  "pointNumber (g_cells (occupyCell row col pn g) c) = pointNumber (g_cells g c)"
  by (auto simp: occupyCell_def getCell_def)

lemma occupyCell_occupied:
  "occupied (g_cells (occupyCell row col pn g) c) =
     (if c = (row, col) \<and> isValidPosition g row col then True else occupied (g_cells g c))"
  by (auto simp: occupyCell_def getCell_def)

lemma releaseCell_simps [simp]:
  "g_size (releaseCell row col g) = g_size g"
  "g_points (releaseCell row col g) = g_points g"
  "isPoint (g_cells (releaseCell row col g) c) = isPoint (g_cells g c)"
  "pointNumber (g_cells (releaseCell row col g) c) = pointNumber (g_cells g c)"
  by (auto simp: releaseCell_def getCell_def)

lemma releaseCell_other: "c \<noteq> (row, col) \<Longrightarrow> g_cells (releaseCell row col g) c = g_cells g c"
  by (auto simp: releaseCell_def getCell_def)

lemma releaseCell_at:
  "isValidPosition g row col \<Longrightarrow> \<not> isPoint (g_cells g (row, col)) \<Longrightarrow>
   g_cells (releaseCell row col g) (row, col) = (g_cells g (row, col))\<lparr>occupied := False, pathNumber := None\<rparr>"
  by (auto simp: releaseCell_def getCell_def)

lemma fold_releaseCell_simps [simp]:
  "g_size (fold (\<lambda>c. releaseCell (fst c) (snd c)) cs g) = g_size g"
  "g_points (fold (\<lambda>c. releaseCell (fst c) (snd c)) cs g) = g_points g"
  "isPoint (g_cells (fold (\<lambda>c. releaseCell (fst c) (snd c)) cs g) p) = isPoint (g_cells g p)"
  "pointNumber (g_cells (fold (\<lambda>c. releaseCell (fst c) (snd c)) cs g) p) = pointNumber (g_cells g p)"
  by (induction cs arbitrary: g) simp_all

lemma fold_releaseCell_other:
  "p \<notin> set cs \<Longrightarrow> g_cells (fold (\<lambda>c. releaseCell (fst c) (snd c)) cs g) p = g_cells g p"
  by (induction cs arbitrary: g) (auto simp: releaseCell_other)

lemma isValidPosition_release [simp]:
  "isValidPosition (releaseCell r c g) row col = isValidPosition g row col"
  by (simp add: isValidPosition_def)

lemma fold_releaseCell_at:
  "p \<in> set cs \<Longrightarrow> isValidPosition g (fst p) (snd p) \<Longrightarrow> \<not> isPoint (g_cells g p) \<Longrightarrow>
   g_cells (fold (\<lambda>c. releaseCell (fst c) (snd c)) cs g) p =
     (g_cells g p)\<lparr>occupied := False, pathNumber := None\<rparr>"
proof (induction cs arbitrary: g)
  case Nil
  then show ?case by simp
next
  case (Cons a cs)
  show ?case
  proof (cases "p \<in> set cs")
    case True
    have "g_cells (fold (\<lambda>c. releaseCell (fst c) (snd c)) cs (releaseCell (fst a) (snd a) g)) p =
          (g_cells (releaseCell (fst a) (snd a) g) p)\<lparr>occupied := False, pathNumber := None\<rparr>"
      using Cons.prems True by (intro Cons.IH) simp_all
    moreover have "(g_cells (releaseCell (fst a) (snd a) g) p)\<lparr>occupied := False, pathNumber := None\<rparr>
        = (g_cells g p)\<lparr>occupied := False, pathNumber := None\<rparr>"
      using Cons.prems by (cases "p = a") (auto simp: releaseCell_other releaseCell_at[of g "fst a" "snd a"])
    ultimately show ?thesis by simp
  next
    case False
    with Cons.prems have pa: "p = a" by simp
    have "g_cells (fold (\<lambda>c. releaseCell (fst c) (snd c)) cs (releaseCell (fst a) (snd a) g)) p =
          g_cells (releaseCell (fst a) (snd a) g) p"
      using False by (rule fold_releaseCell_other)
    then show ?thesis using Cons.prems pa releaseCell_at[of g "fst a" "snd a"] by simp
  qed
qed

lemma setPoint_size [simp]: "g_size (setPoint r c n g) = g_size g"
  by (simp add: setPoint_def split: option.splits)

lemma fold_setPoint_size [simp]:
  "g_size (fold (\<lambda>p. setPoint (p_row p) (p_col p) (p_number p)) ps g) = g_size g"
  by (induction ps arbitrary: g) simp_all

lemma fold_setPoint_isPoint:
  "isPoint (g_cells (fold (\<lambda>p. setPoint (p_row p) (p_col p) (p_number p)) ps g) c) =
     (isPoint (g_cells g c) \<or>
      (isValidPosition g (fst c) (snd c) \<and> (\<exists>p \<in> set ps. (p_row p, p_col p) = c)))"
proof (induction ps arbitrary: g)
  case Nil
  then show ?case by simp
next
  case (Cons a ps)
  have v: "isValidPosition (setPoint (p_row a) (p_col a) (p_number a) g) (fst c) (snd c) =
        isValidPosition g (fst c) (snd c)"
    by (simp add: isValidPosition_def)
  have s: "isPoint (g_cells (setPoint (p_row a) (p_col a) (p_number a) g) c) =
        (isPoint (g_cells g c) \<or> (isValidPosition g (fst c) (snd c) \<and> (p_row a, p_col a) = c))"
    by (auto simp: setPoint_def getCell_def)
  show ?case by (simp add: Cons.IH v s) blast
qed

lemma fold_setPoint_points:
  "g_points (fold (\<lambda>p. setPoint (p_row p) (p_col p) (p_number p)) ps g) c = Some n \<Longrightarrow>
   g_points g c = Some n \<or> isValidPosition g (fst c) (snd c)"
proof (induction ps arbitrary: g)
  case Nil
  then show ?case by simp
next
  case (Cons a ps)
  let ?g = "setPoint (p_row a) (p_col a) (p_number a) g"
  from Cons.prems have "g_points (fold (\<lambda>p. setPoint (p_row p) (p_col p) (p_number p)) ps ?g) c = Some n"
    by simp
  from Cons.IH[OF this] have "g_points ?g c = Some n \<or> isValidPosition ?g (fst c) (snd c)" .
  then show ?case
    by (auto simp: setPoint_def getCell_def isValidPosition_def split: if_splits)
qed

lemma loadLevel_grid_size [simp]: "g_size (grid (loadLevel lvl)) = l_size lvl"
  by (simp add: loadLevel_def initializePoints_def newGrid_def)

lemma loadLevel_isPoint:
  "isPoint (g_cells (grid (loadLevel lvl)) c) = (inBounds lvl c \<and> isPointCell lvl c)"
  by (simp add: loadLevel_def initializePoints_def fold_setPoint_isPoint newGrid_def createGrid_def
        emptyCell_def isValidPosition_def inBounds_def isPointCell_def)

lemma loadLevel_points_inBounds:
  "g_points (grid (loadLevel lvl)) c = Some n \<Longrightarrow> inBounds lvl c"
  using fold_setPoint_points[of "l_points lvl" "\<lparr>g_size = l_size lvl, g_cells = createGrid (l_size lvl), g_points = Map.empty\<rparr>" c n]
  by (simp add: loadLevel_def initializePoints_def newGrid_def isValidPosition_def inBounds_def)

lemma staticGrid_valid: "staticGrid lvl g \<Longrightarrow> isValidPosition g row col = inBounds lvl (row, col)"
  by (simp add: staticGrid_def isValidPosition_def inBounds_def)

lemma staticGrid_isPoint:
  "staticGrid lvl g \<Longrightarrow> isPoint (g_cells g c) = (inBounds lvl c \<and> isPointCell lvl c)"
  by (cases c) (simp add: staticGrid_def loadLevel_isPoint)

lemma staticGrid_occupy: "staticGrid lvl g \<Longrightarrow> staticGrid lvl (occupyCell row col pn g)"
  by (simp add: staticGrid_def)

lemma staticGrid_release:
  "staticGrid lvl g \<Longrightarrow> staticGrid lvl (fold (\<lambda>c. releaseCell (fst c) (snd c)) cs g)"
  by (simp add: staticGrid_def)

lemma staticGrid_load: "staticGrid lvl (grid (loadLevel lvl))"
  by (simp add: staticGrid_def)


lemma staticGrid_points_inBounds:
  "staticGrid lvl g \<Longrightarrow> g_points g c = Some n \<Longrightarrow> inBounds lvl c"
  using loadLevel_points_inBounds[of lvl c n] by (simp add: staticGrid_def)

lemma inv_load: "sessionInv lvl (loadLevel lvl)"
  by (simp add: sessionInv_def staticGrid_load)
     (simp add: loadLevel_def GameState_loadLevel_def GameState_reset_def newGameState_def pathsOk_def)

lemma inv_start:
  assumes "sessionInv lvl w"
  shows "sessionInv lvl (snd (tryStartPath row col w))"
proof (cases "success (fst (tryStartPath row col w))")
  case False
  then have "snd (tryStartPath row col w) = w"
    by (auto simp: tryStartPath_def failure_def ok_def split: option.splits if_splits)
  with assms show ?thesis by simp
next
  case True
  then obtain pt where pt: "getPointAt (grid w) row col = Some pt"
    and none: "currentPath (gs w) = None"
    and w': "snd (tryStartPath row col w) =
            \<lparr>grid = occupyCell row col pt (grid w), gs = startPath row col pt (gs w)\<rparr>"
    by (auto simp: tryStartPath_def failure_def ok_def split: option.splits if_splits)
  from assms have st: "staticGrid lvl (grid w)" by (simp add: sessionInv_def)
  from pt have "g_points (grid w) (row, col) \<noteq> None"
    by (auto simp: getPointAt_def split: option.splits)
  then have ib: "inBounds lvl (row, col)" using staticGrid_points_inBounds[OF st] by auto
  then have v: "isValidPosition (grid w) row col" by (simp add: staticGrid_valid[OF st])
  show ?thesis unfolding w' using assms ib v
    by (auto simp: sessionInv_def staticGrid_occupy startPath_def activeOk_def occupyCell_occupied)
qed

lemma set_interior: "set (interior p) \<subseteq> set (cells p)"
  unfolding interior_def
  by (metis (no_types) in_set_butlastD list.set_sel(2) subsetI tl_Nil)

lemma set_history_saveSnapshot:
  "set (history (saveSnapshot s)) \<subseteq> insert (takeSnapshot s) (set (history s))"
  by (cases "history s") (auto simp: saveSnapshot_history)

lemma findInCurrentPath_bounds:
  assumes "currentPath s = Some cp" "findInCurrentPath row col s \<noteq> -1"
  shows "0 \<le> findInCurrentPath row col s \<and> findInCurrentPath row col s < int (length (cells cp))
         \<and> cells cp ! nat (findInCurrentPath row col s) = (row, col)"
  using assms findIndex_ge[of "\<lambda>c. fst c = row \<and> snd c = col" "cells cp"]
        findIndex_lt[of "\<lambda>c. fst c = row \<and> snd c = col" "cells cp"]
        findIndex_nth[of "\<lambda>c. fst c = row \<and> snd c = col" "cells cp"]
  by (auto simp: findInCurrentPath_def prod_eq_iff)

lemma sliceFrom_nonneg: "0 \<le> i \<Longrightarrow> sliceFrom xs i = drop (nat i) xs"
  by (auto simp: sliceFrom_def relIndex_def min_def)

lemma spliceKeep_nonneg: "0 \<le> i \<Longrightarrow> spliceKeep xs i = take (nat i) xs"
  by (auto simp: spliceKeep_def relIndex_def min_def)

lemma fold_delete: "fold (\<lambda>c occ. occ - {c}) cs occ = occ - set cs"
  by (induction cs arbitrary: occ) auto


lemma inv_cancel:
  assumes "sessionInv lvl w"
  shows "sessionInv lvl (cancelPath w)"
proof (cases "currentPath (gs w)")
  case None
  then show ?thesis using assms by (simp add: cancelPath_def)
next
  case (Some cp)
  then have w': "cancelPath w =
      \<lparr>grid = fold (\<lambda>c. releaseCell (fst c) (snd c)) (tl (cells cp)) (grid w),
       gs = (gs w)\<lparr>occupiedCells := fold (\<lambda>c occ. occ - {c}) (tl (cells cp)) (occupiedCells (gs w)),
            currentPath := None, gameState := IDLE\<rparr>\<rparr>"
    by (simp add: cancelPath_def GameState_cancelPath_def)
  from assms Some have a: "activeOk lvl w cp" by (simp add: sessionInv_def)
  have keep: "\<And>p c. p \<in> set (paths (gs w)) \<Longrightarrow> c \<in> set (cells p) \<Longrightarrow>
      g_cells (fold (\<lambda>c. releaseCell (fst c) (snd c)) (tl (cells cp)) (grid w)) c = g_cells (grid w) c"
    using a by (intro fold_releaseCell_other) (auto simp: activeOk_def)
  show ?thesis unfolding w' using assms keep
    by (simp add: sessionInv_def staticGrid_release)
qed

lemma rebuild_static:
  "staticGrid lvl g \<Longrightarrow> staticGrid lvl (rebuildFromPaths ps g)"
proof -
  have a: "\<And>cs n g. staticGrid lvl g \<Longrightarrow>
      staticGrid lvl (fold (\<lambda>c. occupyCell (fst c) (snd c) n) cs g)"
    subgoal for cs n g by (induction cs arbitrary: g) (simp_all add: staticGrid_occupy)
    done
  have b: "\<And>g. staticGrid lvl g \<Longrightarrow>
      staticGrid lvl (fold (\<lambda>p. fold (\<lambda>c. occupyCell (fst c) (snd c) (number p)) (cells p)) ps g)"
    by (induction ps) (simp_all add: a)
  assume "staticGrid lvl g"
  then have "staticGrid lvl (Grid_reset g)" by (simp add: staticGrid_def Grid_reset_def)
  then show ?thesis unfolding rebuildFromPaths_def by (rule b)
qed

lemma fold_occupy_occupied:
  "occupied (g_cells (fold (\<lambda>c. occupyCell (fst c) (snd c) n) cs g) p) =
     (occupied (g_cells g p) \<or> (p \<in> set cs \<and> isValidPosition g (fst p) (snd p)))"
proof (induction cs arbitrary: g)
  case Nil
  then show ?case by simp
next
  case (Cons a cs)
  have v: "isValidPosition (occupyCell (fst a) (snd a) n g) (fst p) (snd p) =
           isValidPosition g (fst p) (snd p)"
    by (simp add: isValidPosition_def)
  show ?case by (auto simp: Cons.IH v occupyCell_occupied)
qed

lemma fold_occupy_size [simp]:
  "g_size (fold (\<lambda>c. occupyCell (fst c) (snd c) n) cs g) = g_size g"
  by (induction cs arbitrary: g) simp_all

lemma fold_paths_occupied:
  "occupied (g_cells (fold (\<lambda>p. fold (\<lambda>c. occupyCell (fst c) (snd c) (number p)) (cells p)) ps g) c) =
     (occupied (g_cells g c) \<or>
      ((\<exists>p \<in> set ps. c \<in> set (cells p)) \<and> isValidPosition g (fst c) (snd c)))"
proof (induction ps arbitrary: g)
  case Nil
  then show ?case by simp
next
  case (Cons a ps)
  have v: "isValidPosition (fold (\<lambda>c. occupyCell (fst c) (snd c) (number a)) (cells a) g) (fst c) (snd c) =
           isValidPosition g (fst c) (snd c)"
    by (simp add: isValidPosition_def)
  show ?case by (auto simp: Cons.IH v fold_occupy_occupied)
qed

lemma rebuild_occupied:
  "occupied (g_cells (rebuildFromPaths ps g) c) =
     ((\<exists>p \<in> set ps. c \<in> set (cells p)) \<and> isValidPosition g (fst c) (snd c))"
  by (simp add: rebuildFromPaths_def fold_paths_occupied)
     (simp add: Grid_reset_def isValidPosition_def)

lemma initializePoints_reset:
  "g_size g = l_size lvl \<Longrightarrow>
   initializePoints (l_points lvl) (Grid_reset g) = grid (loadLevel lvl)"
  by (cases g) (simp add: initializePoints_def loadLevel_def newGrid_def Grid_reset_def)

lemma inv_undo:
  assumes "sessionInv lvl w"
  shows "sessionInv lvl (snd (undo w))"
proof (cases "history (gs w) = []")
  case True
  then show ?thesis using assms by (simp add: undo_def canUndo_def)
next
  case False
  define snap where "snap = last (history (gs w))"
  define gs' where "gs' = (gs w)\<lparr>history := butlast (history (gs w)),
                        paths := s_paths snap,
                        occupiedCells := s_occupiedCells snap,
                        currentNumber := s_currentNumber snap,
                        connectedPoints := s_connectedPoints snap,
                        currentPath := None,
                        gameState := IDLE\<rparr>"
  from assms have st: "staticGrid lvl (grid w)" and pts: "points (gs w) = l_points lvl"
    by (simp_all add: sessionInv_def)
  have g0: "initializePoints (points gs') (Grid_reset (grid w)) = grid (loadLevel lvl)"
    using st pts by (simp add: gs'_def initializePoints_reset staticGrid_def)
  have w': "snd (undo w) = \<lparr>grid = rebuildFromPaths (s_paths snap) (grid (loadLevel lvl)), gs = gs'\<rparr>"
    using False g0 by (simp add: undo_def canUndo_def GameState_undo_def Let_def snap_def gs'_def)
  from False have "snap \<in> set (history (gs w))" by (simp add: snap_def)
  with assms have ok: "pathsOk lvl (s_paths snap)" by (simp add: sessionInv_def)
  have hist: "\<forall>s \<in> set (butlast (history (gs w))). pathsOk lvl (s_paths s)"
    using assms by (auto simp: sessionInv_def dest: in_set_butlastD)
  have occ: "\<forall>p \<in> set (s_paths snap). \<forall>c \<in> set (cells p).
      occupied (g_cells (rebuildFromPaths (s_paths snap) (grid (loadLevel lvl))) c)"
    using ok by (auto simp: rebuild_occupied pathsOk_def isValidPosition_def inBounds_def)
  show ?thesis unfolding w'
    using ok hist occ pts rebuild_static[OF staticGrid_load, of lvl "s_paths snap"]
    by (simp add: sessionInv_def gs'_def)
qed


lemma tryExtendPath_cases:
  obtains
    (c_fail) "\<not> success (fst (tryExtendPath row col w))" "snd (tryExtendPath row col w) = w"
  | (c_back) cp where "currentPath (gs w) = Some cp" "cells cp \<noteq> []"
      "areAdjacent (last (cells cp)) (row, col)" "posEquals (last (cells cp)) (row, col) = False"
      "findInCurrentPath row col (gs w) \<noteq> -1"
      "tryExtendPath row col w =
         (ok\<lparr>backtracked := True\<rparr>,
          \<lparr>grid = fold (\<lambda>c. releaseCell (fst c) (snd c))
                    (sliceFrom (cells cp) (findInCurrentPath row col (gs w) + 1)) (grid w),
           gs = truncatePath (findInCurrentPath row col (gs w)) (gs w)\<rparr>)"
  | (c_compl) cp pn where "currentPath (gs w) = Some cp" "cells cp \<noteq> []"
      "findInCurrentPath row col (gs w) = -1" "isValidPosition (grid w) row col"
      "isPoint (g_cells (grid w) (row, col))"
      "tryExtendPath row col w =
         (ok\<lparr>completed := True\<rparr>,
          \<lparr>grid = occupyCell row col pn (grid w), gs = completePath row col (gs w)\<rparr>)"
  | (c_ext) cp where "currentPath (gs w) = Some cp" "cells cp \<noteq> []"
      "findInCurrentPath row col (gs w) = -1" "isValidPosition (grid w) row col"
      "\<not> isPoint (g_cells (grid w) (row, col))" "\<not> occupied (g_cells (grid w) (row, col))"
      "tryExtendPath row col w =
         (ok, \<lparr>grid = occupyCell row col (number cp) (grid w), gs = extendPath row col (gs w)\<rparr>)"
proof (cases "currentPath (gs w)")
  case None
  then show ?thesis by (intro c_fail) (simp_all add: tryExtendPath_def failure_def)
next
  case (Some cp)
  show ?thesis
  proof (cases "cells cp = []")
    case True
    with Some show ?thesis
      by (intro c_fail) (simp_all add: tryExtendPath_def failure_def getCurrentPathEnd_def)
  next
    case ne: False
    then have e: "getCurrentPathEnd (gs w) = Some (last (cells cp))"
      using Some by (simp add: getCurrentPathEnd_def)
    show ?thesis
    proof (cases "posEquals (last (cells cp)) (row, col) \<or> \<not> areAdjacent (last (cells cp)) (row, col)")
      case True
      then show ?thesis using Some e
        by (intro c_fail) (auto simp: tryExtendPath_def failure_def)
    next
      case adj: False
      show ?thesis
      proof (cases "findInCurrentPath row col (gs w) = -1")
        case False
        then show ?thesis using Some e adj ne
          by (intro c_back[of cp]) (auto simp: tryExtendPath_def Let_def)
      next
        case nf: True
        show ?thesis
        proof (cases "isValidPosition (grid w) row col")
          case False
          then show ?thesis using Some e adj nf
            by (intro c_fail) (auto simp: tryExtendPath_def failure_def getCell_def)
        next
          case v: True
          then have gc: "getCell (grid w) row col = Some (g_cells (grid w) (row, col))"
            by (simp add: getCell_def)
          let ?c = "g_cells (grid w) (row, col)"
          show ?thesis
          proof (cases "isPoint ?c \<and> pointNumber ?c = Some (currentNumber (gs w) + 1)")
            case True
            then show ?thesis using Some e adj nf v gc ne
              by (intro c_compl[of cp]) (auto simp: tryExtendPath_def Let_def)
          next
            case np: False
            show ?thesis
            proof (cases "occupied ?c \<or> isPoint ?c")
              case True
              then show ?thesis using Some e adj nf v gc np
                by (intro c_fail) (auto simp: tryExtendPath_def failure_def Let_def)
            next
              case False
              then show ?thesis using Some e adj nf v gc np ne
                by (intro c_ext[of cp]) (auto simp: tryExtendPath_def Let_def)
            qed
          qed
        qed
      qed
    qed
  qed
qed


lemma completePath_fields:
  assumes "currentPath s = Some cp"
  shows "paths (completePath row col s) = paths s @ [cp\<lparr>cells := cells cp @ [(row, col)]\<rparr>]"
    and "currentPath (completePath row col s) = None"
    and "points (completePath row col s) = points s"
    and "occupiedCells (completePath row col s) = insert (row, col) (occupiedCells s)"
  using assms by (simp_all add: completePath_def Let_def checkCompletion_def)

lemma interior_snoc: "cs \<noteq> [] \<Longrightarrow> interior (p\<lparr>cells := cs @ [e]\<rparr>) = tl cs"
  by (simp add: interior_def)

lemma set_drop_Suc_tl: "set (drop (Suc n) xs) \<subseteq> set (tl xs)"
  by (cases xs) (auto dest: in_set_dropD)

lemma set_tl_take: "set (tl (take (Suc n) xs)) \<subseteq> set (tl xs)"
  by (cases xs) (auto dest: in_set_takeD)

lemma take_drop_disjoint: "distinct xs \<Longrightarrow> c \<in> set (take n xs) \<Longrightarrow> c \<notin> set (drop n xs)"
  using set_take_disj_set_drop_if_distinct[of xs n n] by auto

lemma inv_extend:
  assumes inv: "sessionInv lvl w"
  shows "sessionInv lvl (snd (tryExtendPath row col w))"
proof (cases row col w rule: tryExtendPath_cases)
  case c_fail
  then show ?thesis using inv by simp
next
  case (c_back cp)
  from inv have st: "staticGrid lvl (grid w)" by (simp add: sessionInv_def)
  from inv c_back(1) have a: "activeOk lvl w cp" by (simp add: sessionInv_def)
  define n where "n = nat (findInCurrentPath row col (gs w))"
  have i: "0 \<le> findInCurrentPath row col (gs w)"
    using findInCurrentPath_bounds[OF c_back(1) c_back(5)] by simp
  then have sl: "sliceFrom (cells cp) (findInCurrentPath row col (gs w) + 1) = drop (Suc n) (cells cp)"
    and sk: "spliceKeep (cells cp) (findInCurrentPath row col (gs w) + 1) = take (Suc n) (cells cp)"
    by (simp_all add: sliceFrom_nonneg spliceKeep_nonneg n_def nat_add_distrib)
  define g' where "g' = fold (\<lambda>c. releaseCell (fst c) (snd c)) (drop (Suc n) (cells cp)) (grid w)"
  define gs' where "gs' = (gs w)\<lparr>currentPath := Some (cp\<lparr>cells := take (Suc n) (cells cp)\<rparr>),
       occupiedCells := occupiedCells (gs w) - set (drop (Suc n) (cells cp))\<rparr>"
  have w': "snd (tryExtendPath row col w) = \<lparr>grid = g', gs = gs'\<rparr>"
    using c_back(1) by (simp add: c_back(6) sl sk truncatePath_def Let_def fold_delete g'_def gs'_def)
  have keep: "\<And>c. c \<notin> set (drop (Suc n) (cells cp)) \<Longrightarrow> g_cells g' c = g_cells (grid w) c"
    unfolding g'_def by (rule fold_releaseCell_other)
  have tailsub: "\<And>c. c \<in> set (drop (Suc n) (cells cp)) \<Longrightarrow> c \<in> set (tl (cells cp))"
    using set_drop_Suc_tl[of n "cells cp"] by blast
  have committed: "\<forall>p \<in> set (paths (gs w)). \<forall>c \<in> set (cells p). occupied (g_cells g' c)"
  proof (intro ballI)
    fix p c assume p: "p \<in> set (paths (gs w))" and c: "c \<in> set (cells p)"
    have "c \<notin> set (drop (Suc n) (cells cp))"
      using a p c tailsub unfolding activeOk_def by blast
    then show "occupied (g_cells g' c)" using keep inv p c by (simp add: sessionInv_def)
  qed
  have act: "activeOk lvl \<lparr>grid = g', gs = gs'\<rparr> (cp\<lparr>cells := take (Suc n) (cells cp)\<rparr>)"
  proof -
    have ne: "take (Suc n) (cells cp) \<noteq> []" using c_back(2) by simp
    have d: "distinct (take (Suc n) (cells cp))" using a by (simp add: activeOk_def)
    have o: "\<forall>c \<in> set (take (Suc n) (cells cp)). inBounds lvl c \<and> occupied (g_cells g' c)"
    proof
      fix c assume c: "c \<in> set (take (Suc n) (cells cp))"
      then have c1: "c \<in> set (cells cp)" by (rule in_set_takeD)
      have "c \<notin> set (drop (Suc n) (cells cp))"
        using a c take_drop_disjoint[of "cells cp" c "Suc n"] unfolding activeOk_def by blast
      then show "inBounds lvl c \<and> occupied (g_cells g' c)"
        using keep a c1 by (simp add: activeOk_def)
    qed
    have t: "\<forall>c \<in> set (tl (take (Suc n) (cells cp))).
          \<not> isPointCell lvl c \<and> (\<forall>p \<in> set (paths gs'). c \<notin> set (cells p))"
      using a set_tl_take[of n "cells cp"] unfolding activeOk_def gs'_def by auto
    show ?thesis using ne d o t by (simp add: activeOk_def)
  qed
  show ?thesis unfolding w'
    using inv committed act
    by (simp add: sessionInv_def g'_def staticGrid_release) (simp add: gs'_def)
next
  case (c_compl cp pn)
  from inv have st: "staticGrid lvl (grid w)" by (simp add: sessionInv_def)
  from inv c_compl(1) have a: "activeOk lvl w cp" by (simp add: sessionInv_def)
  have ib: "inBounds lvl (row, col)" using c_compl(4) by (simp add: staticGrid_valid[OF st])
  define cp1 where "cp1 = cp\<lparr>cells := cells cp @ [(row, col)]\<rparr>"
  define g' where "g' = occupyCell row col pn (grid w)"
  define gs' where "gs' = completePath row col (gs w)"
  have w': "snd (tryExtendPath row col w) = \<lparr>grid = g', gs = gs'\<rparr>"
    by (simp add: c_compl(6) g'_def gs'_def)
  have f: "paths gs' = paths (gs w) @ [cp1]" "currentPath gs' = None" "points gs' = points (gs w)"
    using completePath_fields[OF c_compl(1)] by (simp_all add: gs'_def cp1_def)
  have int1: "interior cp1 = tl (cells cp)"
    using c_compl(2) by (simp add: cp1_def interior_snoc)
  have cells1: "set (cells cp1) = insert (row, col) (set (cells cp))" by (simp add: cp1_def)
  from inv have pok: "pathsOk lvl (paths (gs w))" by (simp add: sessionInv_def)
  have disj: "\<And>c. c \<in> set (tl (cells cp)) \<Longrightarrow> c \<notin> set (concat (map interior (paths (gs w))))"
    using a set_interior by (fastforce simp: activeOk_def)
  have d1: "distinct (tl (cells cp))" using a by (simp add: activeOk_def distinct_tl)
  have pok': "pathsOk lvl (paths gs')"
    unfolding f pathsOk_def
    using pok a ib disj d1
    by (auto simp: pathsOk_def int1 cells1 activeOk_def)
  have hist: "\<forall>s \<in> set (history gs'). pathsOk lvl (s_paths s)"
  proof
    fix s assume s: "s \<in> set (history gs')"
    let ?s1 = "(gs w)\<lparr>currentPath := Some (cp\<lparr>cells := cells cp @ [(row, col)]\<rparr>),
                      occupiedCells := insert (row, col) (occupiedCells (gs w))\<rparr>"
    have "history gs' = history (saveSnapshot ?s1)"
      using c_compl(1) by (simp add: gs'_def completePath_history)
    with s set_history_saveSnapshot[of ?s1]
    have "s = takeSnapshot ?s1 \<or> s \<in> set (history (gs w))" by auto
    then show "pathsOk lvl (s_paths s)"
      using inv pok by (auto simp: takeSnapshot_def sessionInv_def)
  qed
  have v: "isValidPosition (grid w) row col" by (rule c_compl(4))
  have committed: "\<forall>p \<in> set (paths gs'). \<forall>c \<in> set (cells p). occupied (g_cells g' c)"
    unfolding f g'_def using inv a v
    by (auto simp: occupyCell_occupied cells1 sessionInv_def activeOk_def)
  show ?thesis unfolding w'
    using inv pok' hist committed f
    by (simp add: sessionInv_def g'_def staticGrid_occupy)
next
  case (c_ext cp)
  from inv have st: "staticGrid lvl (grid w)" by (simp add: sessionInv_def)
  from inv c_ext(1) have a: "activeOk lvl w cp" by (simp add: sessionInv_def)
  have ib: "inBounds lvl (row, col)" using c_ext(4) by (simp add: staticGrid_valid[OF st])
  have np: "\<not> isPointCell lvl (row, col)"
    using c_ext(5) ib by (simp add: staticGrid_isPoint[OF st])
  have notin: "(row, col) \<notin> set (cells cp)"
    using c_ext(1,3) by (auto simp: findInCurrentPath_def findIndex_neg_iff)
  define g' where "g' = occupyCell row col (number cp) (grid w)"
  define gs' where "gs' = (gs w)\<lparr>currentPath := Some (cp\<lparr>cells := cells cp @ [(row, col)]\<rparr>),
            occupiedCells := insert (row, col) (occupiedCells (gs w))\<rparr>"
  have w': "snd (tryExtendPath row col w) = \<lparr>grid = g', gs = gs'\<rparr>"
    using c_ext(1) by (simp add: c_ext(7) g'_def gs'_def extendPath_def)
  have committed: "\<forall>p \<in> set (paths (gs w)). \<forall>c \<in> set (cells p). occupied (g_cells g' c)"
    using inv by (simp add: g'_def occupyCell_occupied sessionInv_def)
  have fresh: "\<forall>p \<in> set (paths (gs w)). (row, col) \<notin> set (cells p)"
    using inv c_ext(6) by (auto simp: sessionInv_def)
  have act: "activeOk lvl \<lparr>grid = g', gs = gs'\<rparr> (cp\<lparr>cells := cells cp @ [(row, col)]\<rparr>)"
    using a notin ib np fresh c_ext(2,4)
    by (auto simp: activeOk_def g'_def gs'_def occupyCell_occupied)
  show ?thesis unfolding w'
    using inv committed act
    by (simp add: sessionInv_def g'_def staticGrid_occupy) (simp add: gs'_def)
qed

lemma reachable_inv: "reachable lvl w \<Longrightarrow> sessionInv lvl w"
  by (induction rule: reachable.induct) (simp_all add: inv_load inv_start inv_extend inv_cancel inv_undo)

lemma distinct_concat_nth:
  "distinct (concat xss) \<Longrightarrow> i < j \<Longrightarrow> j < length xss \<Longrightarrow> set (xss ! i) \<inter> set (xss ! j) = {}"
proof (induction xss arbitrary: i j)
  case Nil
  then show ?case by simp
next
  case (Cons a xss)
  from Cons.prems obtain j' where j: "j = Suc j'" by (cases j) auto
  show ?case
  proof (cases i)
    case 0
    have "xss ! j' \<in> set xss" using Cons.prems j by simp
    then show ?thesis using Cons.prems(1) 0 j by auto
  next
    case (Suc i')
    then show ?thesis using Cons.IH[of i' j'] Cons.prems j by simp
  qed
qed

lemma triDone_reachable: "reachable triLevel triDone"
  unfolding triDone_def by (intro reachable.intros)

lemma ringCrossed_reachable: "reachable ringLevel ringCrossed"
  unfolding ringCrossed_def by (intro reachable.intros ringStarted_reachable)

lemma ringDrawn_reachable: "reachable ringLevel ringDrawn"
  unfolding ringDrawn_def by (intro reachable.intros ringStarted_reachable)

lemma triDone_paths:
  "paths (gs triDone) = [\<lparr>number = 1, cells = [(0, 0), (0, 1), (0, 2)]\<rparr>,
                         \<lparr>number = 2, cells = [(0, 2), (1, 2), (2, 2)]\<rparr>]"
  by (simp add: triDone_def triLevel_def model_defs)

lemma ringCrossed_paths:
  "paths (gs ringCrossed) = [\<lparr>number = 1, cells = [(0, 0), (0, 1), (1, 1), (1, 0)]\<rparr>]"
  by (simp add: ringCrossed_def ring_defs model_defs)

section \<open>Committed paths do not share cells\<close>

text \<open>In every state reachable from a freshly loaded level by \<open>tryStartPath\<close>,
  \<open>tryExtendPath\<close>, \<open>cancelPath\<close> and \<open>undo\<close>, the non-endpoint cells of two different
  committed paths are disjoint, and no non-endpoint cell of a committed path is the cell
  of a point of the level.\<close>

lemma committed_interiors_disjoint:
  assumes "reachable lvl w"
  shows "(\<forall>i j. i < j \<and> j < length (paths (gs w)) \<longrightarrow>
            set (interior (paths (gs w) ! i)) \<inter> set (interior (paths (gs w) ! j)) = {}) \<and>
         (\<forall>p \<in> set (paths (gs w)). \<forall>c \<in> set (interior p). \<not> isPointCell lvl c)"
proof -
  from reachable_inv[OF assms] have ok: "pathsOk lvl (paths (gs w))"
    by (simp add: sessionInv_def)
  have "\<forall>i j. i < j \<and> j < length (paths (gs w)) \<longrightarrow>
            set (interior (paths (gs w) ! i)) \<inter> set (interior (paths (gs w) ! j)) = {}"
  proof (intro allI impI)
    fix i j assume ij: "i < j \<and> j < length (paths (gs w))"
    from ok have "distinct (concat (map interior (paths (gs w))))" by (simp add: pathsOk_def)
    from distinct_concat_nth[OF this, of i j] ij
    show "set (interior (paths (gs w) ! i)) \<inter> set (interior (paths (gs w) ! j)) = {}" by simp
  qed
  with ok show ?thesis by (simp add: pathsOk_def)
qed

lemma committed_interiors_disjoint_example:
  "reachable triLevel triDone \<and>
   length (paths (gs triDone)) = 2 \<and>
   interior (paths (gs triDone) ! 0) = [(0, 1)] \<and>
   interior (paths (gs triDone) ! 1) = [(1, 2)] \<and>
   set (interior (paths (gs triDone) ! 0)) \<inter> set (interior (paths (gs triDone) ! 1)) = {} \<and>
   \<not> isPointCell triLevel (0, 1) \<and> \<not> isPointCell triLevel (1, 2)"
proof -
  have i: "interior (paths (gs triDone) ! 0) = [(0, 1)] \<and>
           interior (paths (gs triDone) ! 1) = [(1, 2)] \<and> length (paths (gs triDone)) = 2"
    by (simp add: triDone_paths interior_def)
  have "(0::nat) < 1 \<and> 1 < length (paths (gs triDone))" using i by simp
  with committed_interiors_disjoint[OF triDone_reachable]
  have d: "set (interior (paths (gs triDone) ! 0)) \<inter> set (interior (paths (gs triDone) ! 1)) = {}"
    by blast
  have m: "paths (gs triDone) ! 0 \<in> set (paths (gs triDone)) \<and>
           paths (gs triDone) ! 1 \<in> set (paths (gs triDone))"
    using i by simp
  with committed_interiors_disjoint[OF triDone_reachable] i
  have "\<not> isPointCell triLevel (0, 1) \<and> \<not> isPointCell triLevel (1, 2)"
    by (metis list.set_intros(1))
  with i d triDone_reachable show ?thesis by simp
qed

text \<open>Claim C3 on the code. The claim asks in addition that the non-endpoint cells of a
  committed path are disjoint from the obstacle cells. On the ring level, whose obstacle
  is the centre cell, the path \<open>(0,0), (0,1), (1,1), (1,0)\<close> is accepted cell by cell and
  committed, and its non-endpoint cell \<open>(1,1)\<close> is the obstacle: the obstacles of the
  level are never handed to the grid, so the path engine cannot refuse them.\<close>

theorem committed_path_crosses_obstacle:
  "reachable ringLevel ringCrossed \<and>
   paths (gs ringCrossed) = [\<lparr>number = 1, cells = [(0, 0), (0, 1), (1, 1), (1, 0)]\<rparr>] \<and>
   (1, 1) \<in> set (interior (paths (gs ringCrossed) ! 0)) \<and>
   (1, 1) \<in> set (l_obstacles ringLevel)"
  using ringCrossed_reachable
  by (simp add: ringCrossed_paths interior_def) (simp add: ringLevel_def)

section \<open>Backtracking\<close>

lemma findIndex_first:
  "i < length xs \<Longrightarrow> P (xs ! i) \<Longrightarrow> (\<forall>j < i. \<not> P (xs ! j)) \<Longrightarrow> findIndex P xs = int i"
proof (induction xs arbitrary: i)
  case Nil
  then show ?case by simp
next
  case (Cons a xs)
  show ?case
  proof (cases i)
    case 0
    with Cons.prems show ?thesis by simp
  next
    case (Suc i')
    have na: "\<not> P a" using Cons.prems(3) Suc by auto
    have "findIndex P xs = int i'"
      using Cons.prems Suc by (intro Cons.IH) auto
    with na Suc show ?thesis by (simp add: Let_def)
  qed
qed

text \<open>Claim C8. In a reachable state with an active path, let the target be the cell
  at index \<open>i\<close> of the path, adjacent to the end of the path and different from it. Then
  \<open>tryExtendPath\<close> succeeds with the flag \<open>backtracked\<close>; the path is cut to its first
  \<open>i + 1\<close> cells; exactly the cells after index \<open>i\<close> leave the occupied set of the session
  and become unoccupied in the grid; every other cell of the grid, and so every cell of the
  remaining prefix, is as before.\<close>

theorem backtrack_truncates:
  assumes "reachable lvl w" "currentPath (gs w) = Some cp"
    "i < length (cells cp)" "cells cp ! i = (row, col)"
    "areAdjacent (last (cells cp)) (row, col)" "(row, col) \<noteq> last (cells cp)"
  shows "fst (tryExtendPath row col w) = ok\<lparr>backtracked := True\<rparr> \<and>
         gs (snd (tryExtendPath row col w)) =
           (gs w)\<lparr>currentPath := Some (cp\<lparr>cells := take (Suc i) (cells cp)\<rparr>),
                  occupiedCells := occupiedCells (gs w) - set (drop (Suc i) (cells cp))\<rparr> \<and>
         (\<forall>c \<in> set (drop (Suc i) (cells cp)).
            g_cells (grid (snd (tryExtendPath row col w))) c =
              (g_cells (grid w) c)\<lparr>occupied := False, pathNumber := None\<rparr>) \<and>
         (\<forall>c. c \<notin> set (drop (Suc i) (cells cp)) \<longrightarrow>
            g_cells (grid (snd (tryExtendPath row col w))) c = g_cells (grid w) c) \<and>
         set (take (Suc i) (cells cp)) \<inter> set (drop (Suc i) (cells cp)) = {}"
proof -
  from reachable_inv[OF assms(1)] have inv: "sessionInv lvl w" .
  then have st: "staticGrid lvl (grid w)" and a: "activeOk lvl w cp"
    using assms(2) by (simp_all add: sessionInv_def)
  from a have d: "distinct (cells cp)" by (simp add: activeOk_def)
  from assms(3) have ne: "cells cp \<noteq> []" by auto
  have e: "getCurrentPathEnd (gs w) = Some (last (cells cp))"
    using assms(2) ne by (simp add: getCurrentPathEnd_def)
  have "findIndex (\<lambda>c. fst c = row \<and> snd c = col) (cells cp) = int i"
  proof (rule findIndex_first)
    show "i < length (cells cp)" by (rule assms(3))
    show "fst (cells cp ! i) = row \<and> snd (cells cp ! i) = col" using assms(4) by simp
    show "\<forall>j<i. \<not> (fst (cells cp ! j) = row \<and> snd (cells cp ! j) = col)"
    proof (intro allI impI)
      fix j assume "j < i"
      then have "cells cp ! j \<noteq> cells cp ! i"
        using d assms(3) by (simp add: nth_eq_iff_index_eq)
      then show "\<not> (fst (cells cp ! j) = row \<and> snd (cells cp ! j) = col)"
        using assms(4) by (auto simp: prod_eq_iff)
    qed
  qed
  then have fi: "findInCurrentPath row col (gs w) = int i"
    using assms(2) by (simp add: findInCurrentPath_def)
  have pe: "\<not> posEquals (last (cells cp)) (row, col)"
    using assms(6) by (auto simp: posEquals_def prod_eq_iff)
  have sl: "sliceFrom (cells cp) (int i + 1) = drop (Suc i) (cells cp)"
    and sk: "spliceKeep (cells cp) (int i + 1) = take (Suc i) (cells cp)"
    by (simp_all add: sliceFrom_nonneg spliceKeep_nonneg nat_add_distrib)
  have r: "tryExtendPath row col w =
      (ok\<lparr>backtracked := True\<rparr>,
       \<lparr>grid = fold (\<lambda>c. releaseCell (fst c) (snd c)) (drop (Suc i) (cells cp)) (grid w),
        gs = (gs w)\<lparr>currentPath := Some (cp\<lparr>cells := take (Suc i) (cells cp)\<rparr>),
                  occupiedCells := occupiedCells (gs w) - set (drop (Suc i) (cells cp))\<rparr>\<rparr>)"
    using assms(2,5) e pe fi
    by (simp add: tryExtendPath_def Let_def sl sk truncatePath_def fold_delete)
  have rel: "\<forall>c \<in> set (drop (Suc i) (cells cp)).
      g_cells (fold (\<lambda>c. releaseCell (fst c) (snd c)) (drop (Suc i) (cells cp)) (grid w)) c =
        (g_cells (grid w) c)\<lparr>occupied := False, pathNumber := None\<rparr>"
  proof
    fix c assume c: "c \<in> set (drop (Suc i) (cells cp))"
    then have t: "c \<in> set (tl (cells cp))" using set_drop_Suc_tl[of i "cells cp"] by blast
    then have "c \<in> set (cells cp)" using ne by (auto dest: list.set_sel(2))
    with a have ib: "inBounds lvl c" by (simp add: activeOk_def)
    from a t have np: "\<not> isPointCell lvl c" unfolding activeOk_def by blast
    have v: "isValidPosition (grid w) (fst c) (snd c)"
      using ib by (simp add: staticGrid_valid[OF st])
    have "\<not> isPoint (g_cells (grid w) c)" using np by (simp add: staticGrid_isPoint[OF st])
    from fold_releaseCell_at[OF c v this]
    show "g_cells (fold (\<lambda>c. releaseCell (fst c) (snd c)) (drop (Suc i) (cells cp)) (grid w)) c =
        (g_cells (grid w) c)\<lparr>occupied := False, pathNumber := None\<rparr>" .
  qed
  have dis: "set (take (Suc i) (cells cp)) \<inter> set (drop (Suc i) (cells cp)) = {}"
    using d by (simp add: set_take_disj_set_drop_if_distinct)
  show ?thesis unfolding r using rel dis by (simp add: fold_releaseCell_other)
qed

theorem backtrack_truncates_witness:
  "reachable ringLevel ringDrawn \<and>
   currentPath (gs ringDrawn) = Some \<lparr>number = 1, cells = [(0, 0), (0, 1), (0, 2)]\<rparr> \<and>
   areAdjacent (0, 2) (0, 1) \<and>
   backtracked (fst (tryExtendPath 0 1 ringDrawn)) \<and>
   success (fst (tryExtendPath 0 1 ringDrawn)) \<and>
   currentPath (gs (snd (tryExtendPath 0 1 ringDrawn))) =
     Some \<lparr>number = 1, cells = [(0, 0), (0, 1)]\<rparr> \<and>
   occupiedCells (gs (snd (tryExtendPath 0 1 ringDrawn))) = occupiedCells (gs ringDrawn) - {(0, 2)} \<and>
   \<not> occupied (g_cells (grid (snd (tryExtendPath 0 1 ringDrawn))) (0, 2)) \<and>
   g_cells (grid (snd (tryExtendPath 0 1 ringDrawn))) (0, 1) = g_cells (grid ringDrawn) (0, 1)"
proof -
  let ?cp = "\<lparr>number = 1, cells = [(0, 0), (0, 1), (0, 2)]\<rparr>"
  have cp: "currentPath (gs ringDrawn) = Some ?cp"
    by (simp add: ringDrawn_def ring_defs model_defs)
  have i: "(1::nat) < length (cells ?cp)" by simp
  have n: "cells ?cp ! 1 = (0, 1)" by simp
  have a: "areAdjacent (last (cells ?cp)) (0, 1)" by (simp add: areAdjacent_def)
  have d: "((0, 1) :: pos) \<noteq> last (cells ?cp)" by simp
  from backtrack_truncates[OF ringDrawn_reachable cp i n a d] cp a ringDrawn_reachable
  show ?thesis by (simp add: ok_def)
qed

section \<open>The level generator\<close>

lemma random_unit:
  "unitRange r \<Longrightarrow> 0 \<le> fst (random r) \<and> fst (random r) < 1 \<and> unitRange (snd (random r))"
  by (simp add: random_def unitRange_def)

lemma floor_scale_bounds:
  fixes x :: rat
  assumes "0 \<le> x" "x < 1" "0 < n"
  shows "0 \<le> \<lfloor>x * of_int n\<rfloor> \<and> \<lfloor>x * of_int n\<rfloor> < n"
proof -
  have "0 \<le> x * of_int n" using assms by simp
  then have a: "0 \<le> \<lfloor>x * of_int n\<rfloor>" by simp
  have "x * of_int n < 1 * of_int n" using assms by (intro mult_strict_right_mono) simp_all
  then have "\<lfloor>x * of_int n\<rfloor> < n" by (simp add: floor_less_iff)
  with a show ?thesis by simp
qed

lemma swap_props:
  "i < length xs \<Longrightarrow> j < length xs \<Longrightarrow> set (swap i j xs) = set xs \<and> length (swap i j xs) = length xs"
  by (simp add: swap_def set_swap)

lemma shuffleLoop_props:
  "unitRange r \<Longrightarrow> k < length xs \<Longrightarrow>
   set (fst (shuffleLoop k xs r)) = set xs \<and> length (fst (shuffleLoop k xs r)) = length xs \<and>
   unitRange (snd (shuffleLoop k xs r))"
proof (induction k arbitrary: xs r)
  case 0
  then show ?case by simp
next
  case (Suc k)
  obtain x r' where xr: "random r = (x, r')" by (cases "random r")
  with random_unit[OF Suc.prems(1)] have x: "0 \<le> x" "x < 1" and u: "unitRange r'" by simp_all
  define j where "j = nat \<lfloor>x * (of_nat (Suc k) + 1)\<rfloor>"
  have eq: "(of_nat (Suc k) + 1 :: rat) = of_int (int (Suc k) + 1)" by simp
  have "0 \<le> \<lfloor>x * of_int (int (Suc k) + 1)\<rfloor> \<and> \<lfloor>x * of_int (int (Suc k) + 1)\<rfloor> < int (Suc k) + 1"
    using x by (intro floor_scale_bounds) simp_all
  then have jl: "j \<le> Suc k" unfolding j_def eq by linarith
  then have j2: "j < length xs" using Suc.prems(2) by simp
  have sw: "set (swap (Suc k) j xs) = set xs" "length (swap (Suc k) j xs) = length xs"
    using swap_props[OF Suc.prems(2) j2] by simp_all
  have k: "k < length (swap (Suc k) j xs)" using Suc.prems(2) sw by simp
  have e: "shuffleLoop (Suc k) xs r = shuffleLoop k (swap (Suc k) j xs) r'"
    by (simp add: xr j_def)
  show ?case unfolding e using Suc.IH[OF u k] sw by simp
qed

lemma shuffle_props:
  assumes "unitRange r"
  shows "set (fst (shuffle xs r)) = set xs \<and> length (fst (shuffle xs r)) = length xs \<and>
   unitRange (snd (shuffle xs r))"
proof (cases xs)
  case Nil
  then show ?thesis using assms by (simp add: shuffle_def)
next
  case (Cons a list)
  from shuffleLoop_props[OF assms, of "length xs - 1" xs] Cons
  show ?thesis by (simp add: shuffle_def)
qed

lemma directions_image:
  "set (map (\<lambda>d. (row + fst d, col + snd d)) directions) =
     {(row - 1, col), (row + 1, col), (row, col - 1), (row, col + 1)}"
  by (simp add: directions_def)

lemma getNeighbors_iff:
  "n \<in> set (getNeighbors g sz row col vis) \<longleftrightarrow>
     n \<in> {(row - 1, col), (row + 1, col), (row, col - 1), (row, col + 1)} \<and>
     n \<in> freeCells g sz \<and> n \<notin> vis"
  unfolding getNeighbors_def set_filter directions_image freeCells_def
  by blast

lemma getNeighbors_adjacent:
  "n \<in> set (getNeighbors g sz row col vis) \<Longrightarrow> areAdjacent (row, col) n"
  unfolding getNeighbors_iff by (auto simp: areAdjacent_def)

lemma orderNeighbors_props:
  assumes "unitRange r"
  shows "set (fst (orderNeighbors g sz row col vis r)) = set (getNeighbors g sz row col vis) \<and>
         unitRange (snd (orderNeighbors g sz row col vis r))"
proof -
  define sorted where
    "sorted = sort_key (\<lambda>n. length (getNeighbors g sz (fst n) (snd n) vis)) (getNeighbors g sz row col vis)"
  have s: "set sorted = set (getNeighbors g sz row col vis)" by (simp add: sorted_def)
  have l: "length sorted = length (getNeighbors g sz row col vis)" by (simp add: sorted_def)
  obtain x r1 where xr: "random r = (x, r1)" by (cases "random r")
  with random_unit[OF assms] have u1: "unitRange r1" by simp
  have "orderNeighbors g sz row col vis r =
        (if length sorted > 1 then (if x < 3 / 10 then shuffle sorted r1 else (sorted, r1)) else (sorted, r))"
    unfolding orderNeighbors_def Let_def sorted_def[symmetric] xr by simp
  then show ?thesis using s shuffle_props[OF u1, of sorted] assms u1 by auto
qed

lemma dfs_Suc:
  "hamiltonianDFS (Suc fuel) g sz row col target st =
     (if iterations st + 1 > maxIterations st then Some (False, st\<lparr>iterations := iterations st + 1\<rparr>)
      else if int (length (dfsPath st)) + 1 = target
      then Some (True, visit row col (st\<lparr>iterations := iterations st + 1\<rparr>))
      else (case dfsLoop fuel g sz target
                   (fst (orderNeighbors g sz row col (insert (row, col) (visited st)) (rnd st)))
                   ((visit row col (st\<lparr>iterations := iterations st + 1\<rparr>))
                      \<lparr>rnd := snd (orderNeighbors g sz row col (insert (row, col) (visited st)) (rnd st))\<rparr>) of
              None \<Rightarrow> None
            | Some (True, st3) \<Rightarrow> Some (True, st3)
            | Some (False, st3) \<Rightarrow> Some (False, unvisit row col st3)))"
proof -
  have v: "visited (visit row col (st\<lparr>iterations := iterations st + 1\<rparr>)) = insert (row, col) (visited st)"
    by (simp add: visit_def)
  have r: "rnd (visit row col (st\<lparr>iterations := iterations st + 1\<rparr>)) = rnd st"
    by (simp add: visit_def)
  have l: "int (length (dfsPath (visit row col (st\<lparr>iterations := iterations st + 1\<rparr>)))) = int (length (dfsPath st)) + 1"
    by (simp add: visit_def)
  have i: "iterations (st\<lparr>iterations := iterations st + 1\<rparr>) = iterations st + 1"
      "maxIterations (st\<lparr>iterations := iterations st + 1\<rparr>) = maxIterations st"
    by simp_all
  show ?thesis
    by (simp only: hamiltonianDFS.simps Let_def v r l i)
qed

declare hamiltonianDFS.simps [simp del]

lemma dfsPost_refl: "unitRange (rnd st) \<Longrightarrow> dfsPost g sz target st False st"
  by (simp add: dfsPost_def)

lemma dfsPost_trans:
  "dfsPost g sz target st False s1 \<Longrightarrow> dfsPost g sz target s1 b st' \<Longrightarrow> dfsPost g sz target st b st'"
  by (auto simp: dfsPost_def)

lemma searchInv_cong:
  "visited s1 = visited st \<Longrightarrow> dfsPath s1 = dfsPath st \<Longrightarrow> searchInv g sz s1 = searchInv g sz st"
  by (simp add: searchInv_def)

lemma visit_inv:
  assumes "dfsPre g sz row col st"
  shows "searchInv g sz ((visit row col (st\<lparr>iterations := k\<rparr>))\<lparr>rnd := r\<rparr>)"
  using assms
  by (auto simp: dfsPre_def searchInv_def visit_def successively_append_iff)

lemma loop_sound:
  assumes IH: "\<And>row col st b st'. hamiltonianDFS fuel g sz row col target st = Some (b, st') \<Longrightarrow>
                 dfsPre g sz row col st \<Longrightarrow> dfsPost g sz target st b st'"
  shows "dfsLoop fuel g sz target ns st = Some (b, st') \<Longrightarrow> searchInv g sz st \<Longrightarrow>
         dfsPath st \<noteq> [] \<Longrightarrow> unitRange (rnd st) \<Longrightarrow>
         (\<forall>n \<in> set ns. n \<in> freeCells g sz \<and> n \<notin> visited st \<and> areAdjacent (last (dfsPath st)) n) \<Longrightarrow>
         dfsPost g sz target st b st'"
proof (induction ns arbitrary: st)
  case Nil
  then show ?case by (simp add: dfsPost_refl)
next
  case (Cons n ns)
  have pre: "dfsPre g sz (fst n) (snd n) st"
    using Cons.prems by (simp add: dfsPre_def)
  show ?case
  proof (cases "hamiltonianDFS fuel g sz (fst n) (snd n) target st")
    case None
    with Cons.prems(1) show ?thesis by simp
  next
    case (Some res)
    obtain b1 s1 where res: "res = (b1, s1)" by (cases res)
    from IH[OF Some[unfolded res] pre] have p1: "dfsPost g sz target st b1 s1" .
    show ?thesis
    proof (cases b1)
      case True
      with Cons.prems(1) Some res have "b = True" "st' = s1" by simp_all
      with p1 True show ?thesis by simp
    next
      case False
      with Cons.prems(1) Some res have l: "dfsLoop fuel g sz target ns s1 = Some (b, st')" by simp
      from p1 False have same: "visited s1 = visited st" "dfsPath s1 = dfsPath st"
        and u: "unitRange (rnd s1)" by (simp_all add: dfsPost_def)
      have "dfsPost g sz target s1 b st'"
        using Cons.prems(2-5) same u
        by (intro Cons.IH[OF l]) (simp_all add: searchInv_cong[OF same])
      moreover from p1 False have "dfsPost g sz target st False s1" by simp
      ultimately show ?thesis by (rule dfsPost_trans[rotated])
    qed
  qed
qed

lemma dfs_sound:
  "hamiltonianDFS fuel g sz row col target st = Some (b, st') \<Longrightarrow>
   dfsPre g sz row col st \<Longrightarrow> dfsPost g sz target st b st'"
proof (induction fuel arbitrary: row col st b st')
  case 0
  then show ?case by (simp add: hamiltonianDFS.simps)
next
  case (Suc fuel)
  note pre = Suc.prems(2)
  from pre have u: "unitRange (rnd st)" by (simp add: dfsPre_def)
  show ?case
  proof (cases "iterations st + 1 > maxIterations st")
    case True
    with Suc.prems(1) have "b = False" "st' = st\<lparr>iterations := iterations st + 1\<rparr>"
      by (simp_all add: dfs_Suc)
    then show ?thesis using u True by (simp add: dfsPost_def capLeft_def)
  next
    case nocap: False
    let ?st1 = "st\<lparr>iterations := iterations st + 1\<rparr>"
    show ?thesis
    proof (cases "int (length (dfsPath st)) + 1 = target")
      case True
      with Suc.prems(1) nocap have r: "b = True" "st' = visit row col ?st1"
        by (simp_all add: dfs_Suc)
      have "searchInv g sz ((visit row col ?st1)\<lparr>rnd := rnd st\<rparr>)" using pre by (rule visit_inv)
      then have "searchInv g sz (visit row col ?st1)" by (simp add: visit_def searchInv_def)
      then show ?thesis using r u nocap True
        by (simp add: dfsPost_def) (simp add: visit_def capLeft_def)
    next
      case nohit: False
      define ord where "ord = orderNeighbors g sz row col (insert (row, col) (visited st)) (rnd st)"
      define st2 where "st2 = (visit row col ?st1)\<lparr>rnd := snd ord\<rparr>"
      from orderNeighbors_props[OF u, of g sz row col "insert (row, col) (visited st)"]
      have os: "set (fst ord) = set (getNeighbors g sz row col (insert (row, col) (visited st)))"
        and ou: "unitRange (snd ord)" by (simp_all add: ord_def)
      have inv2: "searchInv g sz st2" unfolding st2_def using pre by (rule visit_inv)
      have f2: "visited st2 = insert (row, col) (visited st)" "dfsPath st2 = dfsPath st @ [(row, col)]"
        "rnd st2 = snd ord" "maxIterations st2 = maxIterations st" "iterations st2 = iterations st + 1"
        "expanded st2 = expanded st + 1"
        by (simp_all add: st2_def visit_def)
      have nb: "\<forall>n \<in> set (fst ord). n \<in> freeCells g sz \<and> n \<notin> visited st2 \<and>
                 areAdjacent (last (dfsPath st2)) n"
      proof
        fix n assume "n \<in> set (fst ord)"
        then have n: "n \<in> set (getNeighbors g sz row col (insert (row, col) (visited st)))"
          using os by simp
        from n have "n \<in> freeCells g sz \<and> n \<notin> insert (row, col) (visited st)"
          unfolding getNeighbors_iff by blast
        moreover from n have "areAdjacent (row, col) n" by (rule getNeighbors_adjacent)
        ultimately show "n \<in> freeCells g sz \<and> n \<notin> visited st2 \<and>
                 areAdjacent (last (dfsPath st2)) n" by (simp add: f2)
      qed
      from Suc.prems(1) nocap nohit
      have c: "(case dfsLoop fuel g sz target (fst ord) st2 of
              None \<Rightarrow> None
            | Some (True, st3) \<Rightarrow> Some (True, st3)
            | Some (False, st3) \<Rightarrow> Some (False, unvisit row col st3)) = Some (b, st')"
        by (simp add: dfs_Suc ord_def st2_def)
      then obtain b3 s3 where l: "dfsLoop fuel g sz target (fst ord) st2 = Some (b3, s3)"
        by (cases "dfsLoop fuel g sz target (fst ord) st2") auto
      have p3: "dfsPost g sz target st2 b3 s3"
        using loop_sound[OF Suc.IH l inv2 _ _ nb] ou by (simp add: f2)
      have phi: "expanded st2 + capLeft st2 = expanded st + capLeft st"
        using nocap by (simp add: f2 capLeft_def)
      have phi3: "expanded s3 + capLeft s3 \<le> expanded st + capLeft st"
        using p3 phi by (simp add: dfsPost_def)
      have it3: "iterations st \<le> iterations s3" "maxIterations s3 = maxIterations st"
        "unitRange (rnd s3)"
        using p3 by (simp_all add: dfsPost_def f2)
      show ?thesis
      proof (cases b3)
        case True
        with c l have "b = True" "st' = s3" by simp_all
        with p3 True phi3 it3 show ?thesis by (simp add: dfsPost_def)
      next
        case False
        with c l have r: "b = False" "st' = unvisit row col s3" by simp_all
        from pre have nv: "(row, col) \<notin> visited st" by (simp add: dfsPre_def)
        from p3 False have same: "visited s3 = insert (row, col) (visited st)"
          "dfsPath s3 = dfsPath st @ [(row, col)]" by (simp_all add: dfsPost_def f2)
        have cl: "capLeft (unvisit row col s3) = capLeft s3" "expanded (unvisit row col s3) = expanded s3"
          by (simp_all add: unvisit_def capLeft_def)
        show ?thesis unfolding r dfsPost_def
          using phi3 it3 nv same cl by (simp add: unvisit_def)
      qed
    qed
  qed
qed

lemma box_eq: "box sz = {0..<sz} \<times> {0..<sz}"
  by (auto simp: box_def)

lemma finite_box: "finite (box sz)"
  by (simp add: box_eq)

lemma card_box: "card (box sz) = nat sz * nat sz"
  by (simp add: box_eq)

lemma freeCells_box: "freeCells g sz \<subseteq> box sz"
  by (auto simp: freeCells_def box_def)

lemma finite_freeCells: "finite (freeCells g sz)"
  using freeCells_box finite_box by (rule finite_subset)

lemma card_freeCells_le: "card (freeCells g sz) \<le> nat (sz * sz)"
proof -
  have "card (freeCells g sz) \<le> card (box sz)"
    using freeCells_box finite_box by (intro card_mono)
  also have "\<dots> = nat sz * nat sz" by (rule card_box)
  also have "\<dots> \<le> nat (sz * sz)"
    by (cases "0 \<le> sz") (simp_all add: nat_mult_distrib)
  finally show ?thesis .
qed

lemma loop_total:
  assumes IH: "\<And>row col st. dfsPre g sz row col st \<Longrightarrow>
                 card (freeCells g sz - visited st) \<le> fuel \<Longrightarrow>
                 \<exists>res. hamiltonianDFS fuel g sz row col target st = Some res"
  shows "searchInv g sz st \<Longrightarrow> dfsPath st \<noteq> [] \<Longrightarrow> unitRange (rnd st) \<Longrightarrow>
         (\<forall>n \<in> set ns. n \<in> freeCells g sz \<and> n \<notin> visited st \<and> areAdjacent (last (dfsPath st)) n) \<Longrightarrow>
         card (freeCells g sz - visited st) \<le> fuel \<Longrightarrow>
         \<exists>res. dfsLoop fuel g sz target ns st = Some res"
proof (induction ns arbitrary: st)
  case Nil
  show ?case by simp blast
next
  case (Cons n ns)
  have pre: "dfsPre g sz (fst n) (snd n) st"
    using Cons.prems by (simp add: dfsPre_def)
  from IH[OF pre Cons.prems(5)] obtain b1 s1 where
    d: "hamiltonianDFS fuel g sz (fst n) (snd n) target st = Some (b1, s1)" by auto
  show ?case
  proof (cases b1)
    case True
    with d show ?thesis by simp blast
  next
    case False
    from dfs_sound[OF d pre] False have same: "visited s1 = visited st" "dfsPath s1 = dfsPath st"
      and u: "unitRange (rnd s1)" by (simp_all add: dfsPost_def)
    have "\<exists>res. dfsLoop fuel g sz target ns s1 = Some res"
      using Cons.prems same u
      by (intro Cons.IH) (simp_all add: searchInv_cong[OF same])
    with d False show ?thesis by simp
  qed
qed

lemma dfs_total:
  "dfsPre g sz row col st \<Longrightarrow> card (freeCells g sz - visited st) \<le> fuel \<Longrightarrow>
   \<exists>res. hamiltonianDFS fuel g sz row col target st = Some res"
proof (induction fuel arbitrary: row col st)
  case 0
  from 0(1) have "(row, col) \<in> freeCells g sz - visited st" by (simp add: dfsPre_def)
  moreover have "finite (freeCells g sz - visited st)" using finite_freeCells by simp
  ultimately have "card (freeCells g sz - visited st) \<noteq> 0" by auto
  with 0(2) show ?case by simp
next
  case (Suc fuel)
  note pre = Suc.prems(1)
  from pre have u: "unitRange (rnd st)" and c: "(row, col) \<in> freeCells g sz" "(row, col) \<notin> visited st"
    by (simp_all add: dfsPre_def)
  let ?st1 = "st\<lparr>iterations := iterations st + 1\<rparr>"
  define ord where "ord = orderNeighbors g sz row col (insert (row, col) (visited st)) (rnd st)"
  define st2 where "st2 = (visit row col ?st1)\<lparr>rnd := snd ord\<rparr>"
  from orderNeighbors_props[OF u, of g sz row col "insert (row, col) (visited st)"]
  have os: "set (fst ord) = set (getNeighbors g sz row col (insert (row, col) (visited st)))"
    and ou: "unitRange (snd ord)" by (simp_all add: ord_def)
  have inv2: "searchInv g sz st2" unfolding st2_def using pre by (rule visit_inv)
  have f2: "visited st2 = insert (row, col) (visited st)" "dfsPath st2 = dfsPath st @ [(row, col)]"
    "rnd st2 = snd ord"
    by (simp_all add: st2_def visit_def)
  have nb: "\<forall>n \<in> set (fst ord). n \<in> freeCells g sz \<and> n \<notin> visited st2 \<and>
             areAdjacent (last (dfsPath st2)) n"
  proof
    fix n assume "n \<in> set (fst ord)"
    then have n: "n \<in> set (getNeighbors g sz row col (insert (row, col) (visited st)))"
      using os by simp
    from n have "n \<in> freeCells g sz \<and> n \<notin> insert (row, col) (visited st)"
      unfolding getNeighbors_iff by blast
    moreover from n have "areAdjacent (row, col) n" by (rule getNeighbors_adjacent)
    ultimately show "n \<in> freeCells g sz \<and> n \<notin> visited st2 \<and>
             areAdjacent (last (dfsPath st2)) n" by (simp add: f2)
  qed
  have "freeCells g sz - visited st2 = (freeCells g sz - visited st) - {(row, col)}"
    by (auto simp: f2)
  moreover have "(row, col) \<in> freeCells g sz - visited st" using c by simp
  moreover have "finite (freeCells g sz - visited st)" using finite_freeCells by simp
  ultimately have "card (freeCells g sz - visited st2) = card (freeCells g sz - visited st) - 1"
    by (simp add: card_Diff_singleton)
  with Suc.prems(2) have cf: "card (freeCells g sz - visited st2) \<le> fuel" by simp
  have "\<exists>res. dfsLoop fuel g sz target (fst ord) st2 = Some res"
    using loop_total[OF Suc.IH inv2 _ _ nb cf] ou by (simp add: f2)
  then obtain b3 s3 where "dfsLoop fuel g sz target (fst ord) st2 = Some (b3, s3)" by auto
  then have "hamiltonianDFS (Suc fuel) g sz row col target st \<noteq> None"
    by (cases b3) (simp_all add: dfs_Suc ord_def[symmetric] st2_def[symmetric] del: not_None_eq)
  then show ?case by auto
qed

lemma startState_pre:
  "unitRange r \<Longrightarrow> s \<in> box sz \<Longrightarrow> g s \<noteq> -1 \<Longrightarrow> dfsPre g sz (fst s) (snd s) (startState r)"
  by (simp add: dfsPre_def startState_def searchInv_def freeCells_def box_def)

lemma startLoop_sound:
  "startLoop fuel g sz tc starts r = Some (res, r') \<Longrightarrow> unitRange r \<Longrightarrow>
   set starts \<subseteq> box sz \<Longrightarrow>
   unitRange r' \<and> (\<forall>pth. res = Some pth \<longrightarrow> goodPath g sz tc pth)"
proof (induction starts arbitrary: r)
  case Nil
  then show ?case by simp
next
  case (Cons s starts)
  show ?case
  proof (cases "g s = -1")
    case True
    with Cons.prems have "startLoop fuel g sz tc starts r = Some (res, r')" by simp
    from Cons.IH[OF this] Cons.prems show ?thesis by simp
  next
    case False
    from Cons.prems have pre: "dfsPre g sz (fst s) (snd s) (startState r)"
      using False by (intro startState_pre) simp_all
    show ?thesis
    proof (cases "hamiltonianDFS fuel g sz (fst s) (snd s) tc (startState r)")
      case None
      with Cons.prems(1) False show ?thesis by (simp add: startState_def)
    next
      case (Some x)
      obtain b st where x: "x = (b, st)" by (cases x)
      from dfs_sound[OF Some[unfolded x] pre] have post: "dfsPost g sz tc (startState r) b st" .
      show ?thesis
      proof (cases b)
        case True
        with Cons.prems(1) False Some x have "res = Some (dfsPath st)" "r' = rnd st"
          by (simp_all add: startState_def)
        with post True show ?thesis by (simp add: dfsPost_def goodPath_def searchInv_def)
      next
        case nb: False
        with Cons.prems(1) False Some x
        have "startLoop fuel g sz tc starts (rnd st) = Some (res, r')"
          by (simp add: startState_def)
        moreover from post have "unitRange (rnd st)" by (simp add: dfsPost_def)
        moreover have "set starts \<subseteq> box sz" using Cons.prems(3) by simp
        ultimately show ?thesis by (rule Cons.IH)
      qed
    qed
  qed
qed

lemma startLoop_total:
  "unitRange r \<Longrightarrow> set starts \<subseteq> box sz \<Longrightarrow> card (freeCells g sz) \<le> fuel \<Longrightarrow>
   \<exists>res. startLoop fuel g sz tc starts r = Some res"
proof (induction starts arbitrary: r)
  case Nil
  show ?case by simp
next
  case (Cons s starts)
  show ?case
  proof (cases "g s = -1")
    case True
    have "\<exists>res. startLoop fuel g sz tc starts r = Some res"
      using Cons.prems by (intro Cons.IH) simp_all
    with True show ?thesis by simp
  next
    case False
    from Cons.prems have pre: "dfsPre g sz (fst s) (snd s) (startState r)"
      using False by (intro startState_pre) simp_all
    have "card (freeCells g sz - visited (startState r)) \<le> fuel"
      using Cons.prems(3) by (simp add: startState_def)
    from dfs_total[OF pre this, of tc] obtain b st where
      d: "hamiltonianDFS fuel g sz (fst s) (snd s) tc (startState r) = Some (b, st)" by auto
    from dfs_sound[OF d pre] have u: "unitRange (rnd st)" by (simp add: dfsPost_def)
    show ?thesis
    proof (cases b)
      case True
      with d False show ?thesis by (simp add: startState_def)
    next
      case nb: False
      have "\<exists>res. startLoop fuel g sz tc starts (rnd st) = Some res"
        using Cons.prems u by (intro Cons.IH) simp_all
      with d False nb show ?thesis by (simp add: startState_def)
    qed
  qed
qed

lemma corners_box:
  "1 \<le> sz \<Longrightarrow> set [(0, 0), (0, sz - 1), (sz - 1, 0), (sz - 1, sz - 1)] \<subseteq> box sz"
  by (simp add: box_def)

lemma find_sound:
  assumes "findHamiltonianPath fuel g sz obs r = Some (Inr (res, r'))" "unitRange r"
  shows "1 \<le> sz \<and> unitRange r' \<and>
         (\<forall>pth. res = Some pth \<longrightarrow> goodPath g sz (sz * sz - int (length obs)) pth)"
proof -
  define sh where "sh = shuffle [(0, 0), (0, sz - 1), (sz - 1, 0), (sz - 1, sz - 1)] r"
  from assms(1) have sz: "1 \<le> sz"
    by (cases "sz \<le> 0") (simp_all add: findHamiltonianPath_def Let_def case_prod_beta)
  with assms(1) have "startLoop fuel g sz (sz * sz - int (length obs)) (fst sh) (snd sh) = Some (res, r')"
    by (auto simp: findHamiltonianPath_def Let_def case_prod_beta sh_def)
  moreover from shuffle_props[OF assms(2), of "[(0, 0), (0, sz - 1), (sz - 1, 0), (sz - 1, sz - 1)]"]
  have "unitRange (snd sh)" "set (fst sh) \<subseteq> box sz"
    using corners_box[OF sz] by (simp_all add: sh_def)
  ultimately show ?thesis using sz startLoop_sound by blast
qed

lemma find_total:
  assumes "unitRange r" "nat (sz * sz) \<le> fuel"
  shows "\<exists>res. findHamiltonianPath fuel g sz obs r = Some res"
proof (cases "sz \<le> 0")
  case True
  then show ?thesis by (simp add: findHamiltonianPath_def Let_def case_prod_beta)
next
  case False
  define sh where "sh = shuffle [(0, 0), (0, sz - 1), (sz - 1, 0), (sz - 1, sz - 1)] r"
  from shuffle_props[OF assms(1), of "[(0, 0), (0, sz - 1), (sz - 1, 0), (sz - 1, sz - 1)]"]
  have "unitRange (snd sh)" "set (fst sh) \<subseteq> box sz"
    using corners_box[of sz] False by (simp_all add: sh_def)
  moreover have "card (freeCells g sz) \<le> fuel" using card_freeCells_le[of g sz] assms(2) by simp
  ultimately have "\<exists>res. startLoop fuel g sz (sz * sz - int (length obs)) (fst sh) (snd sh) = Some res"
    by (rule startLoop_total)
  then show ?thesis using False
    by (auto simp: findHamiltonianPath_def Let_def case_prod_beta sh_def)
qed

declare obstacleLoop.simps [simp del]

declare attemptLoop.simps [simp del]

lemma obstacle_coord:
  fixes x :: rat
  assumes "0 \<le> x" "x < 1" "2 \<le> sz"
  shows "0 \<le> \<lfloor>x * of_int (sz - 2)\<rfloor> + 1 \<and> \<lfloor>x * of_int (sz - 2)\<rfloor> + 1 < sz"
proof (cases "sz = 2")
  case True
  then show ?thesis by simp
next
  case False
  with assms have "0 < sz - 2" by simp
  from floor_scale_bounds[OF assms(1,2) this] show ?thesis by simp
qed

lemma obstacleLoop_step:
  "int (length obs) < m \<and> a < m * 10 \<Longrightarrow>
   obstacleLoop sz m a obs r =
     obstacleLoop sz m (a + 1)
       (if (\<lfloor>fst (random r) * of_int (sz - 2)\<rfloor> + 1,
            \<lfloor>fst (random (snd (random r))) * of_int (sz - 2)\<rfloor> + 1) \<notin> set obs \<and>
           (\<lfloor>fst (random r) * of_int (sz - 2)\<rfloor> + 1,
            \<lfloor>fst (random (snd (random r))) * of_int (sz - 2)\<rfloor> + 1) \<notin> avoidCells sz
        then obs @ [(\<lfloor>fst (random r) * of_int (sz - 2)\<rfloor> + 1,
                     \<lfloor>fst (random (snd (random r))) * of_int (sz - 2)\<rfloor> + 1)]
        else obs)
       (snd (random (snd (random r))))"
  by (subst obstacleLoop.simps) (simp add: Let_def case_prod_beta)

lemma obstacleLoop_stop:
  "\<not> (int (length obs) < m \<and> a < m * 10) \<Longrightarrow> obstacleLoop sz m a obs r = (obs, r)"
  by (subst obstacleLoop.simps) auto

lemma obstacleLoop_props:
  "unitRange r \<Longrightarrow> distinct obs \<Longrightarrow>
   distinct (fst (obstacleLoop sz m a obs r)) \<and> unitRange (snd (obstacleLoop sz m a obs r)) \<and>
   (2 \<le> sz \<longrightarrow> set obs \<subseteq> box sz \<longrightarrow> set (fst (obstacleLoop sz m a obs r)) \<subseteq> box sz)"
proof (induction "nat (m * 10 - a)" arbitrary: a obs r rule: less_induct)
  case less
  show ?case
  proof (cases "int (length obs) < m \<and> a < m * 10")
    case False
    then show ?thesis using less.prems by (simp add: obstacleLoop_stop)
  next
    case True
    define x where "x = fst (random r)"
    define r1 where "r1 = snd (random r)"
    define y where "y = fst (random r1)"
    define r2 where "r2 = snd (random r1)"
    define c where "c = (\<lfloor>x * of_int (sz - 2)\<rfloor> + 1, \<lfloor>y * of_int (sz - 2)\<rfloor> + 1)"
    define obs' where "obs' = (if c \<notin> set obs \<and> c \<notin> avoidCells sz then obs @ [c] else obs)"
    from random_unit[OF less.prems(1)] have x: "0 \<le> x" "x < 1" and u1: "unitRange r1"
      by (simp_all add: x_def r1_def)
    from random_unit[OF u1] have y: "0 \<le> y" "y < 1" and u2: "unitRange r2"
      by (simp_all add: y_def r2_def)
    have e: "obstacleLoop sz m a obs r = obstacleLoop sz m (a + 1) obs' r2"
      using obstacleLoop_step[OF True, of sz r]
      by (simp add: obs'_def c_def x_def y_def r1_def r2_def)
    have d: "distinct obs'" using less.prems(2) by (simp add: obs'_def)
    have b: "2 \<le> sz \<longrightarrow> set obs \<subseteq> box sz \<longrightarrow> set obs' \<subseteq> box sz"
      using obstacle_coord[OF x] obstacle_coord[OF y]
      by (auto simp: obs'_def c_def box_def)
    have m: "nat (m * 10 - (a + 1)) < nat (m * 10 - a)" using True by simp
    from less.hyps[OF m u2 d] b show ?thesis unfolding e by blast
  qed
qed

lemma generateObstacles_props:
  assumes "unitRange r"
  shows "distinct (fst (generateObstacles sz m r)) \<and> unitRange (snd (generateObstacles sz m r)) \<and>
         (2 \<le> sz \<longrightarrow> set (fst (generateObstacles sz m r)) \<subseteq> box sz)"
  using obstacleLoop_props[OF assms, of "[]" sz m 0] by (simp add: generateObstacles_def)

lemma generateObstacles_zero: "generateObstacles sz 0 r = ([], r)"
  by (simp add: generateObstacles_def obstacleLoop_stop)

lemma tryGenerateLevel_sound:
  assumes "tryGenerateLevel fuel sz np m r = Some (Inr (res, r'))" "unitRange r"
  shows "unitRange r' \<and> 1 \<le> sz \<and> (\<forall>lvl. res = Some lvl \<longrightarrow> (\<exists>pth. builtFrom sz np pth lvl))"
proof -
  define obs where "obs = fst (generateObstacles sz m r)"
  define r1 where "r1 = snd (generateObstacles sz m r)"
  from generateObstacles_props[OF assms(2), of sz m]
  have d: "distinct obs" and u1: "unitRange r1" and b: "2 \<le> sz \<longrightarrow> set obs \<subseteq> box sz"
    by (simp_all add: obs_def r1_def)
  let ?g = "createGridLG sz obs"
  from assms(1) obtain fr where f: "findHamiltonianPath fuel ?g sz obs r1 = Some fr"
    by (cases "findHamiltonianPath fuel ?g sz obs r1")
       (simp_all add: tryGenerateLevel_def Let_def case_prod_beta obs_def r1_def)
  from assms(1) f obtain pr r2 where fr: "fr = Inr (pr, r2)"
    by (cases fr) (auto simp: tryGenerateLevel_def Let_def case_prod_beta obs_def r1_def)
  from find_sound[OF f[unfolded fr] u1]
  have sz: "1 \<le> sz" and u2: "unitRange r2"
    and gp: "\<forall>pth. pr = Some pth \<longrightarrow> goodPath ?g sz (sz * sz - int (length obs)) pth" by simp_all
  show ?thesis
  proof (cases pr)
    case None
    with assms(1) f fr have "res = None" "r' = r2"
      by (simp_all add: tryGenerateLevel_def Let_def case_prod_beta obs_def r1_def)
    with sz u2 show ?thesis by simp
  next
    case (Some pth)
    with assms(1) f fr obtain pts where pp: "placePoints pth np = Inr pts"
      by (cases "placePoints pth np")
         (simp_all add: tryGenerateLevel_def Let_def case_prod_beta obs_def r1_def)
    with assms(1) f fr Some
    have r: "res = Some \<lparr>l_size = sz, l_points = pts, l_obstacles = obs,
                          l_solution = createSolution pth pts\<rparr>" "r' = r2"
      by (simp_all add: tryGenerateLevel_def Let_def case_prod_beta obs_def r1_def)
    have "builtFrom sz np pth \<lparr>l_size = sz, l_points = pts, l_obstacles = obs,
                          l_solution = createSolution pth pts\<rparr>"
      using pp gp Some d b sz by (simp add: builtFrom_def)
    with r sz u2 show ?thesis by auto
  qed
qed

lemma pointIndex_bounds:
  assumes "1 \<le> L" "0 \<le> i" "i \<le> np - 1"
  shows "0 \<le> pointIndex L np i \<and> pointIndex L np i < L"
proof (cases "i = 0 \<or> i = np - 1")
  case True
  with assms show ?thesis by (auto simp: pointIndex_def)
next
  case False
  with assms have i: "1 \<le> i" "i \<le> np - 2" by simp_all
  define d where "d = L div np"
  have np: "0 < np" using i by simp
  have d0: "0 \<le> d" using assms(1) np by (simp add: d_def pos_imp_zdiv_nonneg_iff)
  have "L = np * (L div np) + L mod np" by simp
  moreover have "0 \<le> L mod np" using np by simp
  ultimately have "np * d \<le> L" unfolding d_def by linarith
  moreover have "i * d \<le> (np - 2) * d" using i d0 by (intro mult_right_mono) simp_all
  ultimately have "i * d \<le> L - 2 * d" by (simp add: algebra_simps)
  then have "i * d < L" using d0 assms(1) by (cases "d = 0") simp_all
  moreover have "0 \<le> i * d" using i d0 by simp
  ultimately show ?thesis using False by (simp add: pointIndex_def d_def)
qed

lemma placeLoop_map:
  "pth \<noteq> [] \<Longrightarrow> (\<forall>i \<in> set is. 0 \<le> i \<and> i \<le> np - 1) \<Longrightarrow>
   placeLoop pth np is = Inr (map (pointAt pth np) is)"
proof (induction "is")
  case Nil
  then show ?case by simp
next
  case (Cons i "is")
  have "1 \<le> int (length pth)" using Cons.prems(1) by (cases pth) simp_all
  from pointIndex_bounds[OF this, of i np] Cons.prems(2)
  have "0 \<le> pointIndex (int (length pth)) np i \<and>
        pointIndex (int (length pth)) np i < int (length pth)" by simp
  then show ?case using Cons by (simp add: Let_def pointAt_def)
qed

lemma placePoints_ok: "pth \<noteq> [] \<Longrightarrow> placePoints pth np = Inr (map (pointAt pth np) [0..np - 1])"
  unfolding placePoints_def by (rule placeLoop_map) simp_all

lemma tryGenerateLevel_total:
  assumes "unitRange r" "nat (sz * sz) \<le> fuel"
  shows "(sz \<le> 0 \<longrightarrow> tryGenerateLevel fuel sz np m r = Some (Inl TypeError)) \<and>
         (1 \<le> sz \<longrightarrow> (\<exists>res r'. tryGenerateLevel fuel sz np m r = Some (Inr (res, r'))))"
proof -
  define obs where "obs = fst (generateObstacles sz m r)"
  define r1 where "r1 = snd (generateObstacles sz m r)"
  from generateObstacles_props[OF assms(1), of sz m]
  have u1: "unitRange r1" by (simp_all add: r1_def)
  let ?g = "createGridLG sz obs"
  from find_total[OF u1 assms(2), of ?g obs] obtain fr where
    f: "findHamiltonianPath fuel ?g sz obs r1 = Some fr" by auto
  have a: "sz \<le> 0 \<longrightarrow> tryGenerateLevel fuel sz np m r = Some (Inl TypeError)"
    by (simp add: tryGenerateLevel_def Let_def case_prod_beta findHamiltonianPath_def)
  have b: "1 \<le> sz \<longrightarrow> (\<exists>res r'. tryGenerateLevel fuel sz np m r = Some (Inr (res, r')))"
  proof
    assume sz: "1 \<le> sz"
    with f obtain pr r2 where fr: "fr = Inr (pr, r2)"
      by (cases fr) (auto simp: findHamiltonianPath_def Let_def case_prod_beta)
    show "\<exists>res r'. tryGenerateLevel fuel sz np m r = Some (Inr (res, r'))"
    proof (cases pr)
      case None
      with f fr show ?thesis
        by (simp add: tryGenerateLevel_def Let_def case_prod_beta obs_def r1_def)
    next
      case (Some pth)
      from find_sound[OF f[unfolded fr] u1] Some have "pth \<noteq> []" by (simp add: goodPath_def)
      from placePoints_ok[OF this, of np] f fr Some show ?thesis
        by (simp add: tryGenerateLevel_def Let_def case_prod_beta obs_def r1_def)
    qed
  qed
  from a b show ?thesis by simp
qed

lemma attemptLoop_step:
  "attempt < 50 \<Longrightarrow>
   attemptLoop fuel sz np m attempt r =
     (case tryGenerateLevel fuel sz np m r of
        None \<Rightarrow> None
      | Some (Inl e) \<Rightarrow> Some (Inl e)
      | Some (Inr (Some lvl, r')) \<Rightarrow> Some (Inr (attempt, Some lvl, r'))
      | Some (Inr (None, r')) \<Rightarrow> attemptLoop fuel sz np m (attempt + 1) r')"
  by (subst attemptLoop.simps) simp

lemma attemptLoop_stop:
  "\<not> attempt < 50 \<Longrightarrow> attemptLoop fuel sz np m attempt r = Some (Inr (attempt, None, r))"
  by (subst attemptLoop.simps) simp

lemma attemptLoop_sound:
  "attemptLoop fuel sz np m a r = Some (Inr (k, res, r')) \<Longrightarrow> unitRange r \<Longrightarrow>
   unitRange r' \<and> (\<forall>lvl. res = Some lvl \<longrightarrow> (\<exists>pth. builtFrom sz np pth lvl))"
proof (induction "50 - a" arbitrary: a r rule: less_induct)
  case less
  show ?case
  proof (cases "a < 50")
    case False
    with less.prems show ?thesis by (simp add: attemptLoop_stop)
  next
    case True
    show ?thesis
    proof (cases "tryGenerateLevel fuel sz np m r")
      case None
      with less.prems(1) True show ?thesis by (simp add: attemptLoop_step)
    next
      case (Some x)
      show ?thesis
      proof (cases x)
        case (Inl e)
        with less.prems(1) True Some show ?thesis by (simp add: attemptLoop_step)
      next
        case (Inr y)
        obtain tr r1 where y: "y = (tr, r1)" by (cases y)
        from tryGenerateLevel_sound[OF Some[unfolded Inr y] less.prems(2)]
        have u1: "unitRange r1" and bf: "\<forall>lvl. tr = Some lvl \<longrightarrow> (\<exists>pth. builtFrom sz np pth lvl)"
          by simp_all
        show ?thesis
        proof (cases tr)
          case None
          with less.prems(1) True Some Inr y
          have l: "attemptLoop fuel sz np m (a + 1) r1 = Some (Inr (k, res, r'))"
            by (simp add: attemptLoop_step)
          have "50 - (a + 1) < 50 - a" using True by simp
          from less.hyps[OF this l u1] show ?thesis .
        next
          case (Some lvl)
          with less.prems(1) True \<open>tryGenerateLevel fuel sz np m r = Some x\<close> Inr y
          have "res = Some lvl" "r' = r1" by (simp_all add: attemptLoop_step)
          with u1 bf Some show ?thesis by simp
        qed
      qed
    qed
  qed
qed

lemma generateWith_sound:
  assumes "generateWith fuel sz np m r = Some (Inr (Some lvl, r'))" "unitRange r"
  shows "\<exists>pth. builtFrom sz np pth lvl"
proof (cases "attemptLoop fuel sz np m 0 r")
  case None
  with assms(1) show ?thesis by (simp add: generateWith_def)
next
  case (Some x)
  show ?thesis
  proof (cases x)
    case (Inl e)
    with assms(1) Some show ?thesis by (simp add: generateWith_def)
  next
    case (Inr y)
    obtain k res r1 where y: "y = (k, res, r1)" by (cases y)
    from attemptLoop_sound[OF Some[unfolded Inr y] assms(2)]
    have u1: "unitRange r1" and bf: "\<forall>l. res = Some l \<longrightarrow> (\<exists>pth. builtFrom sz np pth l)"
      by simp_all
    show ?thesis
    proof (cases res)
      case None
      with assms(1) Some Inr y
      have "tryGenerateLevel fuel sz np 0 r1 = Some (Inr (Some lvl, r'))"
        by (simp add: generateWith_def)
      from tryGenerateLevel_sound[OF this u1] show ?thesis by simp
    next
      case (Some l)
      with assms(1) \<open>attemptLoop fuel sz np m 0 r = Some x\<close> Inr y have "l = lvl"
        by (simp add: generateWith_def)
      with bf Some show ?thesis by simp
    qed
  qed
qed

lemma freeCells_createGrid: "freeCells (createGridLG sz obs) sz = box sz - set obs"
  by (auto simp: freeCells_def createGridLG_def box_def)

lemma goodPath_covers:
  assumes gp: "goodPath (createGridLG sz obs) sz (sz * sz - int (length obs)) pth"
    and d: "distinct obs" and b: "2 \<le> sz \<longrightarrow> set obs \<subseteq> box sz" and sz: "1 \<le> sz"
  shows "set pth = box sz - set obs"
proof -
  from gp have sub: "set pth \<subseteq> box sz - set obs" and dp: "distinct pth"
    and len: "int (length pth) = sz * sz - int (length obs)" and ne: "pth \<noteq> []"
    by (simp_all add: goodPath_def freeCells_createGrid)
  have fin: "finite (box sz - set obs)" using finite_box by simp
  have "card (box sz - set obs) = length pth"
  proof (cases "sz = 1")
    case True
    from ne have "1 \<le> int (length pth)" by (cases pth) simp_all
    with len True have "obs = []" by simp
    with True len show ?thesis by (simp add: card_box)
  next
    case False
    with sz b have ob: "set obs \<subseteq> box sz" by simp
    have "card (box sz - set obs) = card (box sz) - card (set obs)"
      using ob by (intro card_Diff_subset) simp_all
    also have "\<dots> = nat sz * nat sz - length obs" using d by (simp add: card_box distinct_card)
    finally have c: "card (box sz - set obs) = nat sz * nat sz - length obs" .
    have "int (nat sz * nat sz) = sz * sz" using sz by simp
    with len have "int (length pth) = int (nat sz * nat sz) - int (length obs)" by simp
    moreover have "0 \<le> int (length pth)" by simp
    ultimately have "length pth = nat sz * nat sz - length obs" by linarith
    with c show ?thesis by simp
  qed
  moreover have "card (set pth) = length pth" using dp by (rule distinct_card)
  ultimately have "card (set pth) = card (box sz - set obs)" by simp
  with sub fin show ?thesis by (intro card_subset_eq) simp_all
qed

lemma randAfterFailures_Suc:
  "randAfterFailures fuel sz np m (Suc k) r = Some rk \<longleftrightarrow>
     (\<exists>r1. tryGenerateLevel fuel sz np m r = Some (Inr (None, r1)) \<and>
           randAfterFailures fuel sz np m k r1 = Some rk)"
  by (auto split: option.splits sum.splits)

lemma attemptLoop_char:
  assumes "unitRange r" "nat (sz * sz) \<le> fuel" "1 \<le> sz"
  shows "a \<le> 50 \<Longrightarrow> unitRange r0 \<Longrightarrow>
     (\<exists>j lvl rk r'. a + j < 50 \<and> randAfterFailures fuel sz np m j r0 = Some rk \<and>
         tryGenerateLevel fuel sz np m rk = Some (Inr (Some lvl, r')) \<and>
         attemptLoop fuel sz np m a r0 = Some (Inr (a + j, Some lvl, r'))) \<or>
     (\<exists>r50. randAfterFailures fuel sz np m (50 - a) r0 = Some r50 \<and> unitRange r50 \<and>
         attemptLoop fuel sz np m a r0 = Some (Inr (50, None, r50)))"
proof (induction "50 - a" arbitrary: a r0 rule: less_induct)
  case less
  show ?case
  proof (cases "a < 50")
    case False
    with less.prems have "a = 50" by simp
    then show ?thesis using less.prems by (simp add: attemptLoop_stop)
  next
    case True
    from tryGenerateLevel_total[OF less.prems(2) assms(2), of np m] assms(3)
    obtain res r1 where t: "tryGenerateLevel fuel sz np m r0 = Some (Inr (res, r1))" by auto
    from tryGenerateLevel_sound[OF t less.prems(2)] have u1: "unitRange r1" by simp
    show ?thesis
    proof (cases res)
      case (Some lvl)
      with t True have "attemptLoop fuel sz np m a r0 = Some (Inr (a + 0, Some lvl, r1))"
        by (simp add: attemptLoop_step)
      moreover have "randAfterFailures fuel sz np m 0 r0 = Some r0" by simp
      ultimately show ?thesis using t Some True
        by (intro disjI1 exI[of _ 0] exI[of _ lvl] exI[of _ r0] exI[of _ r1]) simp
    next
      case None
      with t True have e: "attemptLoop fuel sz np m a r0 = attemptLoop fuel sz np m (a + 1) r1"
        by (simp add: attemptLoop_step)
      have lt: "50 - (a + 1) < 50 - a" and le: "a + 1 \<le> 50" using True by simp_all
      from less.hyps[OF lt le u1]
      show ?thesis
      proof
        assume "\<exists>j lvl rk r'. a + 1 + j < 50 \<and> randAfterFailures fuel sz np m j r1 = Some rk \<and>
         tryGenerateLevel fuel sz np m rk = Some (Inr (Some lvl, r')) \<and>
         attemptLoop fuel sz np m (a + 1) r1 = Some (Inr (a + 1 + j, Some lvl, r'))"
        then obtain j lvl rk r' where j: "a + 1 + j < 50"
          and rf: "randAfterFailures fuel sz np m j r1 = Some rk"
          and tg: "tryGenerateLevel fuel sz np m rk = Some (Inr (Some lvl, r'))"
          and al: "attemptLoop fuel sz np m (a + 1) r1 = Some (Inr (a + 1 + j, Some lvl, r'))"
          by blast
        have "randAfterFailures fuel sz np m (Suc j) r0 = Some rk"
          using t None rf by (simp add: randAfterFailures_Suc)
        moreover have "a + Suc j < 50" using j by simp
        moreover have "attemptLoop fuel sz np m a r0 = Some (Inr (a + Suc j, Some lvl, r'))"
          using e al by simp
        ultimately show ?thesis using tg
          by (intro disjI1 exI[of _ "Suc j"] exI[of _ lvl] exI[of _ rk] exI[of _ r']) simp
      next
        assume "\<exists>r50. randAfterFailures fuel sz np m (50 - (a + 1)) r1 = Some r50 \<and> unitRange r50 \<and>
         attemptLoop fuel sz np m (a + 1) r1 = Some (Inr (50, None, r50))"
        then obtain r50 where rf: "randAfterFailures fuel sz np m (50 - (a + 1)) r1 = Some r50"
          and u: "unitRange r50"
          and al: "attemptLoop fuel sz np m (a + 1) r1 = Some (Inr (50, None, r50))" by blast
        have "50 - a = Suc (50 - (a + 1))" using True by simp
        then have "randAfterFailures fuel sz np m (50 - a) r0 = Some r50"
          using t None rf by (simp add: randAfterFailures_Suc)
        then show ?thesis using u e al
          by (intro disjI2 exI[of _ r50]) simp
      qed
    qed
  qed
qed

lemma pidx_less:
  assumes "pth \<noteq> []" "i < nat np"
  shows "pidx pth np i < length pth"
proof -
  have "1 \<le> int (length pth)" using assms(1) by (cases pth) simp_all
  from pointIndex_bounds[OF this, of "int i" np] assms(2)
  have "0 \<le> pointIndex (int (length pth)) np (int i) \<and>
        pointIndex (int (length pth)) np (int i) < int (length pth)" by simp
  then show ?thesis unfolding pidx_def by linarith
qed

lemma pidx_first: "pidx pth np 0 = 0"
  by (simp add: pidx_def pointIndex_def)

lemma pidx_last: "2 \<le> np \<Longrightarrow> pidx pth np (nat np - 1) = length pth - 1"
  by (simp add: pidx_def pointIndex_def)

lemma pidx_strict:
  assumes np: "2 \<le> np" and L: "np \<le> int (length pth)" and ij: "i < j" "j < nat np"
  shows "pidx pth np i < pidx pth np j"
proof -
  define L' where "L' = int (length pth)"
  define d where "d = L' div np"
  have np0: "0 < np" using np by simp
  have "0 < L' div np" using L np0 by (simp add: pos_imp_zdiv_pos_iff L'_def)
  then have d1: "1 \<le> d" by (simp add: d_def)
  have e: "L' = np * d + L' mod np" by (simp add: d_def)
  have m: "0 \<le> L' mod np" using np0 by simp
  from e m have npd: "np * d \<le> L'" by linarith
  have mid: "\<And>k. 1 \<le> k \<Longrightarrow> k \<le> np - 2 \<Longrightarrow> k * d \<le> L' - 2"
  proof -
    fix k :: int assume k: "1 \<le> k" "k \<le> np - 2"
    have "k * d \<le> (np - 2) * d" using k d1 by (intro mult_right_mono) simp_all
    also have "\<dots> = np * d - 2 * d" by (simp add: algebra_simps)
    also have "\<dots> \<le> L' - 2" using npd d1 by linarith
    finally show "k * d \<le> L' - 2" .
  qed
  have pi: "\<And>k. pointIndex L' np k = (if k = 0 then 0 else if k = np - 1 then L' - 1 else k * d)"
    by (simp add: pointIndex_def d_def)
  have goal: "pointIndex L' np (int i) < pointIndex L' np (int j) \<and> 0 \<le> pointIndex L' np (int i)"
  proof (cases "int j = np - 1")
    case True
    show ?thesis
    proof (cases "i = 0")
      case True
      have "np \<le> L'" using L by (simp add: L'_def)
      with \<open>int j = np - 1\<close> np ij True show ?thesis by (simp add: pi)
    next
      case False
      then have "1 \<le> int i" "int i \<le> np - 2" using ij True by simp_all
      from mid[OF this] have "int i * d \<le> L' - 2" .
      moreover have "0 \<le> int i * d" using d1 by simp
      ultimately show ?thesis using True False ij by (simp add: pi)
    qed
  next
    case False
    with ij have j: "int j \<noteq> 0" "int j \<noteq> np - 1" "int i \<noteq> np - 1" by simp_all
    have "int i * d < int j * d" using ij d1 by (intro mult_strict_right_mono) simp_all
    moreover have "0 \<le> int i * d" using d1 by simp
    ultimately show ?thesis using j by (simp add: pi)
  qed
  then show ?thesis unfolding pidx_def L'_def by linarith
qed

lemma placePoints_nth:
  assumes "pth \<noteq> []" "placePoints pth np = Inr pts"
  shows "length pts = nat np \<and>
         (\<forall>i < nat np. pts ! i = \<lparr>p_number = int i + 1, p_row = fst (pth ! pidx pth np i),
                                   p_col = snd (pth ! pidx pth np i)\<rparr>)"
proof -
  from placePoints_ok[OF assms(1), of np] assms(2)
  have pts: "pts = map (pointAt pth np) [0..np - 1]" by simp
  have l: "length pts = nat np" by (simp add: pts)
  have "\<forall>i < nat np. pts ! i = \<lparr>p_number = int i + 1, p_row = fst (pth ! pidx pth np i),
                                   p_col = snd (pth ! pidx pth np i)\<rparr>"
  proof (intro allI impI)
    fix i assume i: "i < nat np"
    then have "[0..np - 1] ! i = 0 + int i" by (intro nth_upto) simp
    then show "pts ! i = \<lparr>p_number = int i + 1, p_row = fst (pth ! pidx pth np i),
                                   p_col = snd (pth ! pidx pth np i)\<rparr>"
      using i by (simp add: pts pointAt_def pidx_def)
  qed
  with l show ?thesis by simp
qed

lemma slice_range:
  "a \<le> b \<Longrightarrow> b < length xs \<Longrightarrow> slice xs (int a) (int b + 1) = take (b + 1 - a) (drop a xs)"
proof -
  assume ab: "a \<le> b" and b: "b < length xs"
  have n: "nat (int b + 1 - int a) = b + 1 - a" using ab by linarith
  have s: "relIndex (int (length xs)) (int a) = int a" using ab b by (simp add: relIndex_def)
  have e: "relIndex (int (length xs)) (int b + 1) = int b + 1" using b by (simp add: relIndex_def)
  show ?thesis unfolding slice_def Let_def s e n by simp
qed

lemma joinPaths_snoc:
  "ps \<noteq> [] \<Longrightarrow> joinPaths (ps @ [q]) = joinPaths ps @ tl q"
  by (cases ps) (simp_all add: joinPaths_def)

lemma tl_take_drop: "tl (take (Suc n) (drop b xs)) = take n (drop (Suc b) xs)"
  by (simp add: tl_take drop_Suc tl_drop)

lemma join_slices:
  assumes mono: "\<And>i. i < k \<Longrightarrow> f i \<le> f (Suc i)"
  shows "0 < k \<Longrightarrow>
         joinPaths (map (\<lambda>i. take (f (Suc i) + 1 - f i) (drop (f i) xs)) [0..<k]) =
           take (f k + 1 - f 0) (drop (f 0) xs)"
  using mono
proof (induction k)
  case 0
  then show ?case by simp
next
  case (Suc k)
  have fk: "f k \<le> f (Suc k)" using Suc.prems(2)[of k] by simp
  show ?case
  proof (cases "k = 0")
    case True
    then show ?thesis by (simp add: joinPaths_def)
  next
    case False
    then have IH: "joinPaths (map (\<lambda>i. take (f (Suc i) + 1 - f i) (drop (f i) xs)) [0..<k]) =
           take (f k + 1 - f 0) (drop (f 0) xs)"
      using Suc.prems(2) by (intro Suc.IH) simp_all
    have mono0: "f 0 \<le> f k"
    proof -
      have "\<And>j. j \<le> k \<Longrightarrow> f 0 \<le> f j"
      proof -
        fix j show "j \<le> k \<Longrightarrow> f 0 \<le> f j"
        proof (induction j)
          case 0
          then show ?case by simp
        next
          case (Suc j)
          then have "f j \<le> f (Suc j)" using \<open>\<And>i. i < Suc k \<Longrightarrow> f i \<le> f (Suc i)\<close>[of j] by simp
          with Suc show ?case by simp
        qed
      qed
      then show ?thesis by simp
    qed
    have ne: "map (\<lambda>i. take (f (Suc i) + 1 - f i) (drop (f i) xs)) [0..<k] \<noteq> []"
      using False by simp
    have "joinPaths (map (\<lambda>i. take (f (Suc i) + 1 - f i) (drop (f i) xs)) [0..<Suc k]) =
          take (f k + 1 - f 0) (drop (f 0) xs) @ tl (take (f (Suc k) + 1 - f k) (drop (f k) xs))"
      using joinPaths_snoc[OF ne] IH by simp
    also have "f (Suc k) + 1 - f k = Suc (f (Suc k) - f k)" using fk by simp
    also have "tl (take (Suc (f (Suc k) - f k)) (drop (f k) xs)) =
               take (f (Suc k) - f k) (drop (Suc (f k)) xs)" by (rule tl_take_drop)
    also have "drop (Suc (f k)) xs = drop (f k + 1 - f 0) (drop (f 0) xs)"
      using mono0 by simp
    also have "take (f k + 1 - f 0) (drop (f 0) xs) @
               take (f (Suc k) - f k) (drop (f k + 1 - f 0) (drop (f 0) xs)) =
               take ((f k + 1 - f 0) + (f (Suc k) - f k)) (drop (f 0) xs)"
      by (simp add: take_add)
    also have "(f k + 1 - f 0) + (f (Suc k) - f k) = f (Suc k) + 1 - f 0"
      using mono0 fk by simp
    finally show ?thesis .
  qed
qed

lemma take_drop_nth_map: "a + n \<le> length xs \<Longrightarrow> take n (drop a xs) = map ((!) xs) [a..<a + n]"
proof (rule nth_equalityI)
  assume a: "a + n \<le> length xs"
  then show "length (take n (drop a xs)) = length (map ((!) xs) [a..<a + n])" by simp
  fix i assume "i < length (take n (drop a xs))"
  then have i: "i < n" by simp
  then show "take n (drop a xs) ! i = map ((!) xs) [a..<a + n] ! i" using a by simp
qed

lemma set_take_drop_image:
  "a + n \<le> length xs \<Longrightarrow> set (take n (drop a xs)) = (!) xs ` {a..<a + n}"
  by (simp add: take_drop_nth_map)

lemma pidx_mono:
  assumes np: "2 \<le> np" and ne: "pth \<noteq> []" and i: "Suc i < nat np"
  shows "pidx pth np i \<le> pidx pth np (Suc i)"
proof -
  define L' where "L' = int (length pth)"
  define d where "d = L' div np"
  have L1: "1 \<le> L'" using ne by (cases pth) (simp_all add: L'_def)
  have np0: "0 < np" using np by simp
  have d0: "0 \<le> d" using L1 np0 by (simp add: d_def pos_imp_zdiv_nonneg_iff)
  have pi: "\<And>k. pointIndex L' np k = (if k = 0 then 0 else if k = np - 1 then L' - 1 else k * d)"
    by (simp add: pointIndex_def d_def)
  have bi: "0 \<le> pointIndex L' np (int i) \<and> pointIndex L' np (int i) < L'"
    using i by (intro pointIndex_bounds[OF L1]) simp_all
  have "pointIndex L' np (int i) \<le> pointIndex L' np (int (Suc i))"
  proof (cases "int (Suc i) = np - 1")
    case True
    then have "pointIndex L' np (int (Suc i)) = L' - 1" by (simp add: pi)
    with bi show ?thesis by simp
  next
    case False
    have ni: "int i \<noteq> np - 1" using i by simp
    have "int i * d \<le> (int i + 1) * d" using d0 by (intro mult_right_mono) simp_all
    moreover have "0 \<le> (int i + 1) * d" using d0 by simp
    moreover have "pointIndex L' np (int (Suc i)) = (int i + 1) * d"
      using False by (simp add: pi add.commute)
    moreover have "pointIndex L' np (int i) = (if i = 0 then 0 else int i * d)"
      using ni by (simp add: pi)
    ultimately show ?thesis by (cases "i = 0") simp_all
  qed
  with bi show ?thesis unfolding pidx_def L'_def by simp
qed

lemma createSolution_char:
  assumes ne: "pth \<noteq> []" and d: "distinct pth" and pp: "placePoints pth np = Inr pts"
    and np: "2 \<le> np"
  shows "createSolution pth pts = map (segmentAt pth np) [0..<nat np - 1]"
proof -
  from placePoints_nth[OF ne pp] have l: "length pts = nat np"
    and pt: "\<And>i. i < nat np \<Longrightarrow> pts ! i = \<lparr>p_number = int i + 1, p_row = fst (pth ! pidx pth np i),
                                   p_col = snd (pth ! pidx pth np i)\<rparr>" by simp_all
  define pis where "pis = map (\<lambda>pt. findIndex (\<lambda>p. fst p = p_row pt \<and> snd p = p_col pt) pth) pts"
  have pin: "\<And>i. i < nat np \<Longrightarrow> pis ! i = int (pidx pth np i)"
  proof -
    fix i assume i: "i < nat np"
    let ?k = "pidx pth np i"
    have k: "?k < length pth" using ne i by (rule pidx_less)
    have "findIndex (\<lambda>p. fst p = fst (pth ! ?k) \<and> snd p = snd (pth ! ?k)) pth = int ?k"
    proof (rule findIndex_first[OF k])
      show "fst (pth ! ?k) = fst (pth ! ?k) \<and> snd (pth ! ?k) = snd (pth ! ?k)" by simp
      show "\<forall>j<?k. \<not> (fst (pth ! j) = fst (pth ! ?k) \<and> snd (pth ! j) = snd (pth ! ?k))"
      proof (intro allI impI)
        fix j assume "j < ?k"
        then have "pth ! j \<noteq> pth ! ?k" using d k by (simp add: nth_eq_iff_index_eq)
        then show "\<not> (fst (pth ! j) = fst (pth ! ?k) \<and> snd (pth ! j) = snd (pth ! ?k))"
          by (simp add: prod_eq_iff)
      qed
    qed
    then show "pis ! i = int ?k" using i l by (simp add: pis_def pt)
  qed
  have "map (\<lambda>i. \<lparr>seg_from = int i + 1, seg_to = int i + 2,
                    seg_path = slice pth (pis ! i) (pis ! (i + 1) + 1)\<rparr>) [0..<length pts - 1] =
        map (segmentAt pth np) [0..<nat np - 1]"
  proof (unfold l, rule map_cong[OF refl])
    fix i assume "i \<in> set [0..<nat np - 1]"
    then have i: "Suc i < nat np" by simp
    have a: "pis ! i = int (pidx pth np i)" using pin[of i] i by simp
    have b: "pis ! (i + 1) = int (pidx pth np (Suc i))" using pin[of "Suc i"] i by simp
    have m: "pidx pth np i \<le> pidx pth np (Suc i)" using np ne i by (rule pidx_mono)
    have k: "pidx pth np (Suc i) < length pth" using ne i by (rule pidx_less)
    show "\<lparr>seg_from = int i + 1, seg_to = int i + 2,
           seg_path = slice pth (pis ! i) (pis ! (i + 1) + 1)\<rparr> = segmentAt pth np i"
      unfolding a b segmentAt_def using slice_range[OF m k] by simp
  qed
  then show ?thesis by (simp add: createSolution_def Let_def pis_def)
qed

lemma joinSegments_solution:
  assumes ne: "pth \<noteq> []" and np: "2 \<le> np"
  shows "joinSegments (map (segmentAt pth np) [0..<nat np - 1]) = pth"
proof -
  have k: "0 < nat np - 1" using np by simp
  have a: "map seg_path (map (segmentAt pth np) [0..<nat np - 1]) =
        map (\<lambda>i. take (pidx pth np (Suc i) + 1 - pidx pth np i) (drop (pidx pth np i) pth))
          [0..<nat np - 1]"
    by (simp add: segmentAt_def)
  have b: "joinPaths (map (\<lambda>i. take (pidx pth np (Suc i) + 1 - pidx pth np i)
                                   (drop (pidx pth np i) pth)) [0..<nat np - 1]) =
        take (pidx pth np (nat np - 1) + 1 - pidx pth np 0) (drop (pidx pth np 0) pth)"
    using k by (intro join_slices pidx_mono[OF np ne]) simp_all
  have c: "take (pidx pth np (nat np - 1) + 1 - pidx pth np 0) (drop (pidx pth np 0) pth) = pth"
    unfolding pidx_first pidx_last[OF np] using ne by (cases pth) simp_all
  have "joinSegments (map (segmentAt pth np) [0..<nat np - 1]) =
        joinPaths (map seg_path (map (segmentAt pth np) [0..<nat np - 1]))"
    by (simp only: joinSegments_def)
  also have "\<dots> = joinPaths (map (\<lambda>i. take (pidx pth np (Suc i) + 1 - pidx pth np i)
                                   (drop (pidx pth np i) pth)) [0..<nat np - 1])"
    by (simp only: a)
  also have "\<dots> = take (pidx pth np (nat np - 1) + 1 - pidx pth np 0) (drop (pidx pth np 0) pth)"
    by (rule b)
  also have "\<dots> = pth" by (rule c)
  finally show ?thesis .
qed

lemma segments_overlap:
  assumes ne: "pth \<noteq> []" and d: "distinct pth" and np: "2 \<le> np" and L: "np \<le> int (length pth)"
    and ij: "i < j" "Suc j < nat np"
  shows "set (seg_path (segmentAt pth np i)) \<inter> set (seg_path (segmentAt pth np j)) =
           (if j = Suc i then {pth ! pidx pth np j} else {})"
proof -
  let ?f = "pidx pth np"
  have mi: "?f i < ?f (Suc i)" using ij by (intro pidx_strict[OF np L]) simp_all
  have mj: "?f j < ?f (Suc j)" using ij by (intro pidx_strict[OF np L]) simp_all
  have bj: "?f (Suc j) < length pth" using ne ij by (intro pidx_less) simp_all
  have bi: "?f (Suc i) < length pth" using ne ij by (intro pidx_less) simp_all
  have si: "set (seg_path (segmentAt pth np i)) = (!) pth ` {?f i..<?f (Suc i) + 1}"
    using mi bi set_take_drop_image[of "?f i" "?f (Suc i) + 1 - ?f i" pth]
    by (simp add: segmentAt_def)
  have sj: "set (seg_path (segmentAt pth np j)) = (!) pth ` {?f j..<?f (Suc j) + 1}"
    using mj bj set_take_drop_image[of "?f j" "?f (Suc j) + 1 - ?f j" pth]
    by (simp add: segmentAt_def)
  have inj: "inj_on ((!) pth) ({?f i..<?f (Suc i) + 1} \<union> {?f j..<?f (Suc j) + 1})"
    using d bi bj by (intro inj_on_nth) auto
  have int: "(!) pth ` {?f i..<?f (Suc i) + 1} \<inter> (!) pth ` {?f j..<?f (Suc j) + 1} =
             (!) pth ` ({?f i..<?f (Suc i) + 1} \<inter> {?f j..<?f (Suc j) + 1})"
    using inj by (intro inj_on_image_Int[symmetric, of _ "{?f i..<?f (Suc i) + 1} \<union> {?f j..<?f (Suc j) + 1}"]) simp_all
  show ?thesis
  proof (cases "j = Suc i")
    case True
    then have e: "{?f i..<?f (Suc i) + 1} \<inter> {?f j..<?f (Suc j) + 1} = {?f j}"
      using mi mj by auto
    have "(!) pth ` {?f j} = {pth ! ?f j}" by simp
    then show ?thesis unfolding si sj int e using True by simp
  next
    case False
    then have "?f (Suc i) < ?f j" using ij by (intro pidx_strict[OF np L]) simp_all
    then have e: "{?f i..<?f (Suc i) + 1} \<inter> {?f j..<?f (Suc j) + 1} = {}" by auto
    have "(!) pth ` {} = {}" by simp
    then show ?thesis unfolding si sj int e using False by simp
  qed
qed

subsection \<open>The generator on a 2x2 grid\<close>

lemma random_zeroRand: "random zeroRand = (0, zeroRand)"
  by (simp add: random_def zeroRand_def)

lemma unitRange_zeroRand: "unitRange zeroRand"
  by (simp add: unitRange_def zeroRand_def)

lemmas gen_eval = generateWith_def attemptLoop_step tryGenerateLevel_def generateObstacles_zero
        findHamiltonianPath_def shuffle_def random_zeroRand swap_def Let_def createGridLG_def
        dfs_Suc startState_def numeral_nat orderNeighbors_def getNeighbors_def directions_def visit_def unvisit_def
        placePoints_def pointIndex_def createSolution_def slice_def relIndex_def upto.simps

lemma generate_small: "generateWith 4 2 2 0 zeroRand = Some (Inr (Some smallLevel, zeroRand))"
  by (simp add: smallLevel_def gen_eval)

subsection \<open>How far the iteration counter can run\<close>






subsection \<open>The generator on a 6x6 grid\<close>

lemma random_halfRand: "random halfRand = (1 / 2, halfRand)"
  by (simp add: random_def halfRand_def)

lemma unitRange_halfRand: "unitRange halfRand"
  by (simp add: unitRange_def halfRand_def)

lemma floor_half: "\<lfloor>(3::rat) / 2\<rfloor> = 1" "\<lfloor>(1::rat) / 2 * 3\<rfloor> = 1"
  by (simp_all add: floor_eq_iff)

lemma shuffle_six:
  "shuffle [(0, 0), (0, 5), (5, 0), (5, 5)] halfRand = ([(0, 0), (5, 5), (0, 5), (5, 0) :: pos], halfRand)"
  by (simp add: shuffle_def random_halfRand swap_def Let_def numeral_nat floor_half)

lemma dfs_six:
  "map_option (\<lambda>(b, st). (b, dfsPath st, rnd st))
     (hamiltonianDFS 36 (createGridLG 6 []) 6 0 0 36 (startState halfRand)) =
     Some (True, sixPath, halfRand)"
  by (simp add: sixPath_def random_halfRand Let_def createGridLG_def
        dfs_Suc startState_def numeral_nat orderNeighbors_def getNeighbors_def directions_def
        visit_def unvisit_def)

lemma find_six:
  "findHamiltonianPath 36 (createGridLG 6 []) 6 [] halfRand = Some (Inr (Some sixPath, halfRand))"
proof -
  from dfs_six obtain st where
    "hamiltonianDFS 36 (createGridLG 6 []) 6 0 0 36 (startState halfRand) = Some (True, st)"
    "dfsPath st = sixPath" "rnd st = halfRand"
    by (cases "hamiltonianDFS 36 (createGridLG 6 []) 6 0 0 36 (startState halfRand)") auto
  then show ?thesis
    by (simp add: findHamiltonianPath_def shuffle_six createGridLG_def)
qed

lemma place_six:
  "placePoints sixPath 4 = Inr (l_points sixLevel)"
  by (simp add: sixLevel_def sixPath_def placePoints_def pointIndex_def upto.simps)

lemma solution_six:
  "createSolution sixPath (l_points sixLevel) = l_solution sixLevel"
  by (simp add: sixLevel_def sixPath_def createSolution_def slice_def relIndex_def Let_def
        numeral_nat)

lemma generate_six: "generateWith 36 6 4 0 halfRand = Some (Inr (Some sixLevel, halfRand))"
proof -
  have "tryGenerateLevel 36 6 4 0 halfRand = Some (Inr (Some sixLevel, halfRand))"
    using place_six solution_six
    by (simp add: tryGenerateLevel_def generateObstacles_zero find_six) (simp add: sixLevel_def)
  then show ?thesis by (simp add: generateWith_def attemptLoop_step)
qed

subsection \<open>The number of obstacles of a level\<close>

lemma obstacleLoop_length:
  "int (length (fst (obstacleLoop sz m a obs r))) \<le> max (int (length obs)) m"
proof (induction "nat (m * 10 - a)" arbitrary: a obs r rule: less_induct)
  case less
  show ?case
  proof (cases "int (length obs) < m \<and> a < m * 10")
    case False
    then show ?thesis by (simp add: obstacleLoop_stop)
  next
    case True
    define c where "c = (\<lfloor>fst (random r) * of_int (sz - 2)\<rfloor> + 1,
                         \<lfloor>fst (random (snd (random r))) * of_int (sz - 2)\<rfloor> + 1)"
    define obs' where "obs' = (if c \<notin> set obs \<and> c \<notin> avoidCells sz then obs @ [c] else obs)"
    have e: "obstacleLoop sz m a obs r = obstacleLoop sz m (a + 1) obs' (snd (random (snd (random r))))"
      using obstacleLoop_step[OF True, of sz r] by (simp add: obs'_def c_def)
    have l: "max (int (length obs')) m \<le> max (int (length obs)) m"
      using True by (simp add: obs'_def)
    have m: "nat (m * 10 - (a + 1)) < nat (m * 10 - a)" using True by simp
    from less.hyps[OF m, of obs' "snd (random (snd (random r)))"] l
    show ?thesis unfolding e by linarith
  qed
qed

lemma tryGenerateLevel_obstacles:
  assumes "tryGenerateLevel fuel sz np m r = Some (Inr (Some lvl, r'))"
  shows "int (length (l_obstacles lvl)) \<le> max 0 m"
proof -
  from assms have "l_obstacles lvl = fst (generateObstacles sz m r)"
    by (auto simp: tryGenerateLevel_def Let_def case_prod_beta
          split: option.splits sum.splits)
  then show ?thesis using obstacleLoop_length[of sz m 0 "[]" r]
    by (simp add: generateObstacles_def)
qed

lemma attemptLoop_obstacles:
  "attemptLoop fuel sz np m a r = Some (Inr (k, Some lvl, r')) \<Longrightarrow>
   int (length (l_obstacles lvl)) \<le> max 0 m"
proof (induction "50 - a" arbitrary: a r rule: less_induct)
  case less
  show ?case
  proof (cases "a < 50")
    case False
    with less.prems show ?thesis by (simp add: attemptLoop_stop)
  next
    case True
    show ?thesis
    proof (cases "tryGenerateLevel fuel sz np m r")
      case None
      with less.prems(1) True show ?thesis by (simp add: attemptLoop_step)
    next
      case (Some x)
      show ?thesis
      proof (cases x)
        case (Inl e)
        with less.prems(1) True Some show ?thesis by (simp add: attemptLoop_step)
      next
        case (Inr y)
        obtain tr r1 where y: "y = (tr, r1)" by (cases y)
        show ?thesis
        proof (cases tr)
          case None
          with less.prems(1) True Some Inr y
          have l: "attemptLoop fuel sz np m (a + 1) r1 = Some (Inr (k, Some lvl, r'))"
            by (simp add: attemptLoop_step)
          have "50 - (a + 1) < 50 - a" using True by simp
          from less.hyps[OF this l] show ?thesis .
        next
          case (Some l)
          with less.prems(1) True \<open>tryGenerateLevel fuel sz np m r = Some x\<close> Inr y
          have "l = lvl" "r' = r1" by (simp_all add: attemptLoop_step)
          with \<open>tryGenerateLevel fuel sz np m r = Some x\<close> Inr y Some
          have "tryGenerateLevel fuel sz np m r = Some (Inr (Some lvl, r'))" by simp
          then show ?thesis by (rule tryGenerateLevel_obstacles)
        qed
      qed
    qed
  qed
qed

lemma generateWith_obstacles:
  assumes "generateWith fuel sz np m r = Some (Inr (Some lvl, r'))"
  shows "int (length (l_obstacles lvl)) \<le> max 0 m"
proof (cases "attemptLoop fuel sz np m 0 r")
  case None
  with assms(1) show ?thesis by (simp add: generateWith_def)
next
  case (Some x)
  show ?thesis
  proof (cases x)
    case (Inl e)
    with assms(1) Some show ?thesis by (simp add: generateWith_def)
  next
    case (Inr y)
    obtain k res r1 where y: "y = (k, res, r1)" by (cases y)
    show ?thesis
    proof (cases res)
      case None
      with assms(1) Some Inr y
      have "tryGenerateLevel fuel sz np 0 r1 = Some (Inr (Some lvl, r'))"
        by (simp add: generateWith_def)
      from tryGenerateLevel_obstacles[OF this] show ?thesis by simp
    next
      case (Some l)
      with assms(1) \<open>attemptLoop fuel sz np m 0 r = Some x\<close> Inr y have "l = lvl"
        by (simp add: generateWith_def)
      with \<open>attemptLoop fuel sz np m 0 r = Some x\<close> Inr y Some
      have "attemptLoop fuel sz np m 0 r = Some (Inr (k, Some lvl, r1))" by simp
      then show ?thesis by (rule attemptLoop_obstacles)
    qed
  qed
qed

lemma documented_options_fit:
  assumes "6 \<le> sz" "numPoints \<le> 8" "maxObstacles \<le> sz * sz div 5"
    "int n \<le> max 0 maxObstacles"
  shows "numPoints \<le> sz * sz - int n"
proof -
  have "6 * 6 \<le> sz * sz" using assms(1) by (intro mult_mono) simp_all
  then have "36 \<le> sz * sz" by simp
  moreover have "int n \<le> sz * sz div 5" using assms(3,4) \<open>36 \<le> sz * sz\<close> by simp
  ultimately show ?thesis using assms(2) by linarith
qed

subsection \<open>Points and segments, for a number of points that fits on the path\<close>

lemma points_and_segments:
  assumes "generateWith fuel sz numPoints maxObstacles r = Some (Inr (Some lvl, r'))"
    "unitRange r" "2 \<le> numPoints"
    "numPoints \<le> sz * sz - int (length (l_obstacles lvl))"
  shows "\<exists>pth. distinct pth \<and> set pth = box sz - set (l_obstacles lvl) \<and>
           int (length pth) = sz * sz - int (length (l_obstacles lvl)) \<and>
           length (l_points lvl) = nat numPoints \<and>
           (\<forall>i < nat numPoints.
               pidx pth numPoints i < length pth \<and>
               l_points lvl ! i =
                 \<lparr>p_number = int i + 1, p_row = fst (pth ! pidx pth numPoints i),
                  p_col = snd (pth ! pidx pth numPoints i)\<rparr>) \<and>
           (\<forall>i j. i < j \<and> j < nat numPoints \<longrightarrow> pidx pth numPoints i < pidx pth numPoints j) \<and>
           pidx pth numPoints 0 = 0 \<and>
           pidx pth numPoints (nat numPoints - 1) = length pth - 1 \<and>
           l_solution lvl = map (segmentAt pth numPoints) [0..<nat numPoints - 1] \<and>
           joinSegments (l_solution lvl) = pth \<and>
           (\<forall>i j. i < j \<and> Suc j < nat numPoints \<longrightarrow>
               set (seg_path (l_solution lvl ! i)) \<inter> set (seg_path (l_solution lvl ! j)) =
                 (if j = Suc i then {pth ! pidx pth numPoints j} else {}))"
proof -
  from generateWith_sound[OF assms(1,2)] obtain pth where b: "builtFrom sz numPoints pth lvl"
    by blast
  then have gp: "goodPath (createGridLG sz (l_obstacles lvl)) sz
                   (sz * sz - int (length (l_obstacles lvl))) pth"
    and dob: "distinct (l_obstacles lvl)" and bo: "2 \<le> sz \<longrightarrow> set (l_obstacles lvl) \<subseteq> box sz"
    and sz: "1 \<le> sz" and pp: "placePoints pth numPoints = Inr (l_points lvl)"
    and sol: "l_solution lvl = createSolution pth (l_points lvl)"
    by (simp_all add: builtFrom_def)
  from gp have d: "distinct pth" and ne: "pth \<noteq> []"
    and len: "int (length pth) = sz * sz - int (length (l_obstacles lvl))"
    by (simp_all add: goodPath_def)
  have L: "numPoints \<le> int (length pth)" using assms(4) len by simp
  have cov: "set pth = box sz - set (l_obstacles lvl)" using gp dob bo sz by (rule goodPath_covers)
  note np = assms(3)
  have s: "l_solution lvl = map (segmentAt pth numPoints) [0..<nat numPoints - 1]"
    unfolding sol using ne d pp np by (rule createSolution_char)
  have j: "joinSegments (l_solution lvl) = pth" unfolding s using ne np by (rule joinSegments_solution)
  have pts: "length (l_points lvl) = nat numPoints \<and>
           (\<forall>i < nat numPoints.
               pidx pth numPoints i < length pth \<and>
               l_points lvl ! i =
                 \<lparr>p_number = int i + 1, p_row = fst (pth ! pidx pth numPoints i),
                  p_col = snd (pth ! pidx pth numPoints i)\<rparr>)"
    using placePoints_nth[OF ne pp] pidx_less[OF ne] by simp
  have str: "\<forall>i j. i < j \<and> j < nat numPoints \<longrightarrow> pidx pth numPoints i < pidx pth numPoints j"
    using pidx_strict[OF np L] by blast
  have ov: "\<forall>i j. i < j \<and> Suc j < nat numPoints \<longrightarrow>
               set (seg_path (l_solution lvl ! i)) \<inter> set (seg_path (l_solution lvl ! j)) =
                 (if j = Suc i then {pth ! pidx pth numPoints j} else {})"
  proof (intro allI impI)
    fix i j assume ij: "i < j \<and> Suc j < nat numPoints"
    then have "i < nat numPoints - 1" "j < nat numPoints - 1" by linarith+
    then have "l_solution lvl ! i = segmentAt pth numPoints i"
      "l_solution lvl ! j = segmentAt pth numPoints j" unfolding s by simp_all
    then show "set (seg_path (l_solution lvl ! i)) \<inter> set (seg_path (l_solution lvl ! j)) =
                 (if j = Suc i then {pth ! pidx pth numPoints j} else {})"
      using segments_overlap[OF ne d np L, of i j] ij by simp
  qed
  show ?thesis
    using d cov len pts str pidx_first[of pth numPoints] pidx_last[OF np, of pth] s j ov
    by (intro exI[of _ pth]) simp
qed

subsection \<open>A search that runs into the cap\<close>























section \<open>The solution path of a generated level\<close>

text \<open>Claim C4. Whenever the generator returns a level, the path it found, from which the
  points and the solution segments of the level are built, visits every cell of the grid
  that is not an obstacle exactly once, any two consecutive cells of it are 4-adjacent, and
  its length is \<open>size\<^sup>2\<close> minus the number of obstacles. The level records the path as its
  solution segments: for two or more points, joining the segments gives the path back.
  The generator is taken from the computed \<open>maxObstacles\<close> on, for every value of it.\<close>

theorem generated_path_hamiltonian:
  assumes "generateWith fuel sz numPoints maxObstacles r = Some (Inr (Some lvl, r'))"
    "unitRange r"
  shows "\<exists>pth. placePoints pth numPoints = Inr (l_points lvl) \<and>
               l_solution lvl = createSolution pth (l_points lvl) \<and>
               (2 \<le> numPoints \<longrightarrow> joinSegments (l_solution lvl) = pth) \<and>
               l_size lvl = sz \<and>
               distinct pth \<and>
               set pth = box sz - set (l_obstacles lvl) \<and>
               successively areAdjacent pth \<and>
               int (length pth) = sz * sz - int (length (l_obstacles lvl))"
proof -
  from generateWith_sound[OF assms] obtain pth where b: "builtFrom sz numPoints pth lvl" by blast
  then have gp: "goodPath (createGridLG sz (l_obstacles lvl)) sz
                   (sz * sz - int (length (l_obstacles lvl))) pth"
    and d: "distinct (l_obstacles lvl)" and bo: "2 \<le> sz \<longrightarrow> set (l_obstacles lvl) \<subseteq> box sz"
    and sz: "1 \<le> sz" and pp: "placePoints pth numPoints = Inr (l_points lvl)"
    and sol: "l_solution lvl = createSolution pth (l_points lvl)"
    by (simp_all add: builtFrom_def)
  from gp have dp: "distinct pth" and ne: "pth \<noteq> []" by (simp_all add: goodPath_def)
  from goodPath_covers[OF gp d bo sz] have cov: "set pth = box sz - set (l_obstacles lvl)" .
  have j: "2 \<le> numPoints \<longrightarrow> joinSegments (l_solution lvl) = pth"
  proof
    assume np: "2 \<le> numPoints"
    have s: "l_solution lvl = map (segmentAt pth numPoints) [0..<nat numPoints - 1]"
      unfolding sol using ne dp pp np by (rule createSolution_char)
    show "joinSegments (l_solution lvl) = pth"
      unfolding s using ne np by (rule joinSegments_solution)
  qed
  from b gp cov j show ?thesis by (auto simp: builtFrom_def goodPath_def)
qed

theorem generated_path_hamiltonian_witness:
  "generateWith 4 2 2 0 zeroRand = Some (Inr (Some smallLevel, zeroRand)) \<and> unitRange zeroRand \<and>
   (\<exists>pth. placePoints pth 2 = Inr (l_points smallLevel) \<and>
               l_solution smallLevel = createSolution pth (l_points smallLevel) \<and>
               ((2::int) \<le> 2 \<longrightarrow> joinSegments (l_solution smallLevel) = pth) \<and>
               l_size smallLevel = 2 \<and>
               distinct pth \<and>
               set pth = box 2 - set (l_obstacles smallLevel) \<and>
               successively areAdjacent pth \<and>
               int (length pth) = 2 * 2 - int (length (l_obstacles smallLevel)))"
  by (intro conjI generate_small unitRange_zeroRand
        generated_path_hamiltonian[OF generate_small unitRange_zeroRand])

section \<open>Points and segments of a generated level\<close>

text \<open>Claim C5, for the options \<open>generate\<close> is documented for and called with: a size of
  at least 6, from 2 to 8 points, and at most 20 percent obstacles (\<open>maxObstacles\<close> at
  most \<open>size\<^sup>2 div 5\<close>). Whenever the generator returns a level, there are \<open>numPoints\<close>
  points, point \<open>i + 1\<close> lies on the cell of the path with index \<open>pidx pth numPoints i\<close>,
  these indices increase strictly with the point number, the first is 0 and the last is
  the last index of the path. The solution has one segment from each point to the next;
  joining the segments, each junction cell taken once, gives the path; two consecutive
  segments share exactly their junction cell, and two segments that are not consecutive
  share no cell.\<close>

theorem generated_points_and_segments:
  assumes "generateWith fuel sz numPoints maxObstacles r = Some (Inr (Some lvl, r'))"
    "unitRange r" "6 \<le> sz" "2 \<le> numPoints" "numPoints \<le> 8"
    "maxObstacles \<le> sz * sz div 5"
  shows "\<exists>pth. distinct pth \<and> set pth = box sz - set (l_obstacles lvl) \<and>
           int (length pth) = sz * sz - int (length (l_obstacles lvl)) \<and>
           length (l_points lvl) = nat numPoints \<and>
           (\<forall>i < nat numPoints.
               pidx pth numPoints i < length pth \<and>
               l_points lvl ! i =
                 \<lparr>p_number = int i + 1, p_row = fst (pth ! pidx pth numPoints i),
                  p_col = snd (pth ! pidx pth numPoints i)\<rparr>) \<and>
           (\<forall>i j. i < j \<and> j < nat numPoints \<longrightarrow> pidx pth numPoints i < pidx pth numPoints j) \<and>
           pidx pth numPoints 0 = 0 \<and>
           pidx pth numPoints (nat numPoints - 1) = length pth - 1 \<and>
           l_solution lvl = map (segmentAt pth numPoints) [0..<nat numPoints - 1] \<and>
           joinSegments (l_solution lvl) = pth \<and>
           (\<forall>i j. i < j \<and> Suc j < nat numPoints \<longrightarrow>
               set (seg_path (l_solution lvl ! i)) \<inter> set (seg_path (l_solution lvl ! j)) =
                 (if j = Suc i then {pth ! pidx pth numPoints j} else {}))"
proof -
  have "numPoints \<le> sz * sz - int (length (l_obstacles lvl))"
    using assms(3,5,6) generateWith_obstacles[OF assms(1)] by (rule documented_options_fit)
  with assms(1,2,4) show ?thesis by (rule points_and_segments)
qed

theorem generated_points_and_segments_witness:
  "generateWith 36 6 4 0 halfRand = Some (Inr (Some sixLevel, halfRand)) \<and> unitRange halfRand \<and>
   (6::int) \<le> 6 \<and> (2::int) \<le> 4 \<and> (4::int) \<le> 8 \<and> (0::int) \<le> 6 * 6 div 5 \<and>
   length (l_solution sixLevel) = 3 \<and>
   (\<exists>pth. distinct pth \<and> set pth = box 6 - set (l_obstacles sixLevel) \<and>
           int (length pth) = 6 * 6 - int (length (l_obstacles sixLevel)) \<and>
           length (l_points sixLevel) = nat 4 \<and>
           (\<forall>i < nat 4.
               pidx pth 4 i < length pth \<and>
               l_points sixLevel ! i =
                 \<lparr>p_number = int i + 1, p_row = fst (pth ! pidx pth 4 i),
                  p_col = snd (pth ! pidx pth 4 i)\<rparr>) \<and>
           (\<forall>i j. i < j \<and> j < nat 4 \<longrightarrow> pidx pth 4 i < pidx pth 4 j) \<and>
           pidx pth 4 0 = 0 \<and>
           pidx pth 4 (nat 4 - 1) = length pth - 1 \<and>
           l_solution sixLevel = map (segmentAt pth 4) [0..<nat 4 - 1] \<and>
           joinSegments (l_solution sixLevel) = pth \<and>
           (\<forall>i j. i < j \<and> Suc j < nat 4 \<longrightarrow>
               set (seg_path (l_solution sixLevel ! i)) \<inter> set (seg_path (l_solution sixLevel ! j)) =
                 (if j = Suc i then {pth ! pidx pth 4 j} else {})))"
proof -
  have a: "(6::int) \<le> 6" "(2::int) \<le> 4" "(4::int) \<le> 8" "(0::int) \<le> 6 * 6 div 5" by simp_all
  have l: "length (l_solution sixLevel) = 3" by (simp add: sixLevel_def)
  show ?thesis
    by (intro conjI generate_six unitRange_halfRand a l
          generated_points_and_segments[OF generate_six unitRange_halfRand a])
qed

section \<open>The iteration cap of the search\<close>




section \<open>The attempts of the generator\<close>

text \<open>Claim C7. With enough depth for the grid, \<open>generate\<close> returns. For a size of at
  least 1 either one of the attempts 0 to 49 with obstacles gives a level, after only
  failed attempts before it, and \<open>generate\<close> returns that level; or all 50 attempts fail,
  \<open>generate\<close> makes one more attempt with no obstacles and returns what this attempt
  returns, a level or \<open>null\<close>. For a size below 1 the first attempt throws.\<close>

theorem generate_attempts_bounded:
  assumes "unitRange r" "nat (sz * sz) \<le> fuel"
  shows "(sz \<le> 0 \<longrightarrow> generateWith fuel sz numPoints maxObstacles r = Some (Inl TypeError)) \<and>
         (1 \<le> sz \<longrightarrow>
            (\<exists>k lvl rk r'. k < 50 \<and>
                randAfterFailures fuel sz numPoints maxObstacles k r = Some rk \<and>
                tryGenerateLevel fuel sz numPoints maxObstacles rk = Some (Inr (Some lvl, r')) \<and>
                generateWith fuel sz numPoints maxObstacles r = Some (Inr (Some lvl, r'))) \<or>
            (\<exists>r50 res r'.
                randAfterFailures fuel sz numPoints maxObstacles 50 r = Some r50 \<and>
                tryGenerateLevel fuel sz numPoints 0 r50 = Some (Inr (res, r')) \<and>
                generateWith fuel sz numPoints maxObstacles r = Some (Inr (res, r'))))"
proof -
  have a: "sz \<le> 0 \<longrightarrow> generateWith fuel sz numPoints maxObstacles r = Some (Inl TypeError)"
  proof
    assume "sz \<le> 0"
    with tryGenerateLevel_total[OF assms, of numPoints maxObstacles]
    have "tryGenerateLevel fuel sz numPoints maxObstacles r = Some (Inl TypeError)" by simp
    then show "generateWith fuel sz numPoints maxObstacles r = Some (Inl TypeError)"
      by (simp add: generateWith_def attemptLoop_step)
  qed
  have b: "1 \<le> sz \<longrightarrow>
            (\<exists>k lvl rk r'. k < 50 \<and>
                randAfterFailures fuel sz numPoints maxObstacles k r = Some rk \<and>
                tryGenerateLevel fuel sz numPoints maxObstacles rk = Some (Inr (Some lvl, r')) \<and>
                generateWith fuel sz numPoints maxObstacles r = Some (Inr (Some lvl, r'))) \<or>
            (\<exists>r50 res r'.
                randAfterFailures fuel sz numPoints maxObstacles 50 r = Some r50 \<and>
                tryGenerateLevel fuel sz numPoints 0 r50 = Some (Inr (res, r')) \<and>
                generateWith fuel sz numPoints maxObstacles r = Some (Inr (res, r')))"
  proof
    assume sz: "1 \<le> sz"
    from attemptLoop_char[OF assms sz, of 0 r numPoints maxObstacles] assms(1)
    consider (found) j lvl rk r' where "j < 50"
        "randAfterFailures fuel sz numPoints maxObstacles j r = Some rk"
        "tryGenerateLevel fuel sz numPoints maxObstacles rk = Some (Inr (Some lvl, r'))"
        "attemptLoop fuel sz numPoints maxObstacles 0 r = Some (Inr (j, Some lvl, r'))"
      | (none) r50 where "randAfterFailures fuel sz numPoints maxObstacles 50 r = Some r50"
        "unitRange r50"
        "attemptLoop fuel sz numPoints maxObstacles 0 r = Some (Inr (50, None, r50))"
      by auto
    then show "(\<exists>k lvl rk r'. k < 50 \<and>
                randAfterFailures fuel sz numPoints maxObstacles k r = Some rk \<and>
                tryGenerateLevel fuel sz numPoints maxObstacles rk = Some (Inr (Some lvl, r')) \<and>
                generateWith fuel sz numPoints maxObstacles r = Some (Inr (Some lvl, r'))) \<or>
            (\<exists>r50 res r'.
                randAfterFailures fuel sz numPoints maxObstacles 50 r = Some r50 \<and>
                tryGenerateLevel fuel sz numPoints 0 r50 = Some (Inr (res, r')) \<and>
                generateWith fuel sz numPoints maxObstacles r = Some (Inr (res, r')))"
    proof cases
      case found
      then have "generateWith fuel sz numPoints maxObstacles r = Some (Inr (Some lvl, r'))"
        by (simp add: generateWith_def)
      with found show ?thesis
        by (intro disjI1 exI[of _ j] exI[of _ lvl] exI[of _ rk] exI[of _ r']) simp
    next
      case none
      from tryGenerateLevel_total[OF none(2) assms(2), of numPoints 0] sz
      obtain res r' where t: "tryGenerateLevel fuel sz numPoints 0 r50 = Some (Inr (res, r'))"
        by auto
      with none have "generateWith fuel sz numPoints maxObstacles r = Some (Inr (res, r'))"
        by (simp add: generateWith_def)
      with none t show ?thesis
        by (intro disjI2 exI[of _ r50] exI[of _ res] exI[of _ r']) simp
    qed
  qed
  from a b show ?thesis by simp
qed

theorem generate_attempts_bounded_witness:
  "unitRange zeroRand \<and> nat (2 * 2) \<le> (4::nat) \<and>
   generateWith 4 2 2 0 zeroRand = Some (Inr (Some smallLevel, zeroRand)) \<and>
   (1::int) \<le> 2 \<and>
   ((\<exists>k lvl rk r'. k < 50 \<and>
          randAfterFailures 4 2 2 0 k zeroRand = Some rk \<and>
          tryGenerateLevel 4 2 2 0 rk = Some (Inr (Some lvl, r')) \<and>
          generateWith 4 2 2 0 zeroRand = Some (Inr (Some lvl, r'))) \<or>
    (\<exists>r50 res r'.
          randAfterFailures 4 2 2 0 50 zeroRand = Some r50 \<and>
          tryGenerateLevel 4 2 2 0 r50 = Some (Inr (res, r')) \<and>
          generateWith 4 2 2 0 zeroRand = Some (Inr (res, r'))))"
proof -
  have c: "nat (2 * 2) \<le> (4::nat)" by simp
  have s: "(1::int) \<le> 2" by simp
  note t = generate_attempts_bounded[OF unitRange_zeroRand c, of 2 0, THEN conjunct2, THEN mp, OF s]
  show ?thesis by (intro conjI unitRange_zeroRand c generate_small s t)
qed

end
